theory Spec2Isabelle
  imports Complex_Main
begin

section \<open>Data model (models.py)\<close>

text \<open>
  The enumerations of models.py. The members of \<open>ToolExecutionStatus\<close> carry the prefix
  \<open>Step_\<close>, since \<open>WorkflowStatus\<close> has members of the same names.
\<close>

datatype WorkflowStatus =
  PENDING | IN_PROGRESS | COMPLETED | FAILED | PARTIALLY_COMPLETED | CANCELLED

datatype ToolExecutionStatus =
  Step_PENDING | Step_RUNNING | Step_COMPLETED | Step_FAILED | Step_SKIPPED

datatype MCPRequestStatus =
  SUCCESS | REQUEST_FAILED | TIMEOUT | RATE_LIMITED | AUTH_ERROR | SERVER_ERROR

text \<open>
  \<open>MCPResponse\<close> of mcp_client.py. A payload (\<open>Any\<close> in the source) is an opaque string,
  \<open>None\<close> is Python's \<open>None\<close>. The measured \<open>response_time_ms\<close> is left out.
\<close>

record MCPResponse =
  success :: bool
  data :: "string option"
  error :: "string option"
  resp_tool_name :: "string option"
  resp_status :: MCPRequestStatus
  resp_retry_count :: int

text \<open>
  \<open>WorkflowStep\<close>: the fields the engine reads and writes. The argument bag
  \<open>parameters\<close> and the two timestamps are left out: no branch of the engine depends on
  them. \<open>max_retries\<close> is a Python \<open>int\<close> with no lower bound in the model class.
\<close>

record WorkflowStep =
  step_id :: string
  name :: string
  tool_name :: string
  depends_on :: "string list"
  step_status :: ToolExecutionStatus
  step_result :: "string option"
  step_error :: "string option"
  retry_count :: int
  max_retries :: int

record WorkflowDefinition =
  def_workflow_id :: string
  def_name :: string
  description :: string
  steps :: "WorkflowStep list"
  timeout_minutes :: int
  parallel_execution :: bool

record WorkflowExecution =
  execution_id :: string
  workflow_id :: string
  status :: WorkflowStatus
  current_step :: "string option"
  completed_steps :: "string list"
  failed_steps :: "string list"
  results :: "string \<rightharpoonup> string option"
  errors :: "string \<rightharpoonup> string"
  progress_percentage :: real

text \<open>
  The exception classes of workflow_manager.py, each with its message, pydantic's
  \<open>ValidationError\<close>, and the built-in exceptions the engine's code can meet
  (\<open>TimeoutError\<close> is \<open>asyncio.TimeoutError\<close>).
\<close>

datatype error =
    WorkflowError string
  | WorkflowTimeoutError string
  | WorkflowStepError string
  | WorkflowDependencyError string
  | ValidationError string
  | KeyError string
  | ZeroDivisionError string
  | TimeoutError string

text \<open>
  \<open>WorkflowStep(step_id=..., name=..., tool_name=..., depends_on=..., max_retries=...)\<close>
  with the defaults of the model class for the execution fields.
\<close>

definition new_step :: "string \<Rightarrow> string \<Rightarrow> string \<Rightarrow> string list \<Rightarrow> int \<Rightarrow> WorkflowStep" where
  "new_step sid nm tool deps retries =
     \<lparr>step_id = sid, name = nm, tool_name = tool, depends_on = deps,
      step_status = Step_PENDING, step_result = None, step_error = None,
      retry_count = 0, max_retries = retries\<rparr>"

definition new_execution :: "string \<Rightarrow> string \<Rightarrow> WorkflowExecution" where
  "new_execution eid wid =
     \<lparr>execution_id = eid, workflow_id = wid, status = PENDING, current_step = None,
      completed_steps = [], failed_steps = [], results = Map.empty, errors = Map.empty,
      progress_percentage = 0\<rparr>"

section \<open>The remote tool invoker as seen by the engine\<close>

text \<open>
  One call of \<open>self.mcp_client.call_tool\<close> either returns an \<open>MCPResponse\<close>, raises an
  \<open>MCPError\<close>, or raises another exception; \<open>seconds\<close> is how long the await took on a
  logical clock, and \<open>cancel_requested\<close> says whether \<open>cancel_workflow\<close> ran for this
  execution while the engine was suspended in the await (the engine is a coroutine on one
  event loop, so other code runs only at its awaits).

  The invoker is a function of the history of the run and of the tool name: a tool may
  answer differently each time it is called.
\<close>

datatype call_result =
    Returned MCPResponse
  | RaisedMCPError string
  | RaisedException string

record tool_reply =
  reply :: call_result
  seconds :: nat
  cancel_requested :: bool

datatype event =
    Invoked string string nat
  | Slept nat

type_synonym invoker = "event list \<Rightarrow> string \<Rightarrow> tool_reply"

record run_state =
  execution :: WorkflowExecution
  trace :: "event list"

fun invoked_step :: "event \<Rightarrow> string option" where
  "invoked_step (Invoked sid tool secs) = Some sid"
| "invoked_step (Slept n) = None"

fun event_seconds :: "event \<Rightarrow> nat" where
  "event_seconds (Invoked sid tool secs) = secs"
| "event_seconds (Slept n) = n"

definition invocations :: "event list \<Rightarrow> string \<Rightarrow> nat" where
  "invocations tr sid = length (filter (\<lambda>e. invoked_step e = Some sid) tr)"

definition sleeps :: "event list \<Rightarrow> nat list" where
  "sleeps tr = concat (map (\<lambda>e. case e of Slept n \<Rightarrow> [n] | Invoked s t d \<Rightarrow> []) tr)"

definition elapsed :: "event list \<Rightarrow> nat" where
  "elapsed tr = sum_list (map event_seconds tr)"

section \<open>WorkflowManager: one step with its retries\<close>

text \<open>The object update in the body of \<open>cancel_workflow\<close>.\<close>

definition mark_cancelled :: "WorkflowExecution \<Rightarrow> WorkflowExecution" where
  "mark_cancelled ex = ex\<lparr>status := CANCELLED\<rparr>"

text \<open>
  \<open>_call_mcp_tool\<close>: an \<open>MCPError\<close> becomes a \<open>WorkflowStepError\<close> with a new message,
  any other exception passes through. \<open>Inl\<close> is \<open>str(e)\<close> of the exception that reaches
  \<open>_execute_step\<close>.
\<close>

fun call_mcp_tool :: "string \<Rightarrow> call_result \<Rightarrow> string + MCPResponse" where
  "call_mcp_tool tool (Returned r) = Inr r"
| "call_mcp_tool tool (RaisedMCPError e) = Inl (''MCP tool '' @ tool @ '' failed: '' @ e)"
| "call_mcp_tool tool (RaisedException e) = Inl e"

definition await_tool :: "invoker \<Rightarrow> WorkflowStep \<Rightarrow> run_state \<Rightarrow> call_result \<times> run_state" where
  "await_tool call step st =
     (let r = call (trace st) (tool_name step)
      in (reply r,
          st\<lparr>trace := trace st @ [Invoked (step_id step) (tool_name step) (seconds r)],
             execution := (if cancel_requested r then mark_cancelled (execution st)
                           else execution st)\<rparr>))"

definition record_completed :: "WorkflowStep \<Rightarrow> MCPResponse \<Rightarrow> WorkflowExecution \<Rightarrow> WorkflowExecution" where
  "record_completed step result ex =
     ex\<lparr>completed_steps := completed_steps ex @ [step_id step],
        results := (results ex)(step_id step \<mapsto> data result)\<rparr>"

definition record_failed :: "WorkflowStep \<Rightarrow> string \<Rightarrow> WorkflowExecution \<Rightarrow> WorkflowExecution" where
  "record_failed step e ex =
     ex\<lparr>failed_steps := failed_steps ex @ [step_id step],
        errors := (errors ex)(step_id step \<mapsto> e)\<rparr>"

text \<open>
  The body of \<open>for attempt in range(step.max_retries + 1)\<close>, over the attempts that are
  left. The result is the exception raised (\<open>None\<close> when the function returns), the step
  object and the state. The empty list is the loop running out, which happens only when
  the range is empty from the start: the last attempt returns or raises.
\<close>

fun attempt_loop :: "invoker \<Rightarrow> int list \<Rightarrow> WorkflowStep \<Rightarrow> run_state
    \<Rightarrow> error option \<times> WorkflowStep \<times> run_state" where
  "attempt_loop call [] step st = (None, step, st)"
| "attempt_loop call (attempt # rest) step st =
     (case await_tool call step st of (r, st1) \<Rightarrow>
        (case call_mcp_tool (tool_name step) r of
           Inr result \<Rightarrow>
             (None,
              step\<lparr>step_result := data result, step_status := Step_COMPLETED\<rparr>,
              st1\<lparr>execution := record_completed step result (execution st1)\<rparr>)
         | Inl e \<Rightarrow>
             (let step1 = step\<lparr>retry_count := attempt, step_error := Some e\<rparr>
              in if attempt < max_retries step
                 then attempt_loop call rest step1
                        (st1\<lparr>trace := trace st1 @ [Slept (2 ^ nat attempt)]\<rparr>)
                 else (Some (WorkflowStepError (''Step '' @ step_id step @ '' failed: '' @ e)),
                       step1\<lparr>step_status := Step_FAILED\<rparr>,
                       st1\<lparr>execution := record_failed step e (execution st1)\<rparr>))))"

definition execute_step :: "invoker \<Rightarrow> WorkflowStep \<Rightarrow> run_state
    \<Rightarrow> error option \<times> WorkflowStep \<times> run_state" where
  "execute_step call step st =
     attempt_loop call [0..max_retries step] (step\<lparr>step_status := Step_RUNNING\<rparr>)
       (st\<lparr>execution := (execution st)\<lparr>current_step := Some (step_id step)\<rparr>\<rparr>)"

text \<open>
  A tool whose every invocation raises, whatever the history. A tool that fails by
  returning a response with \<open>success = False\<close> is not of this kind.
\<close>

definition always_raises :: "invoker \<Rightarrow> string \<Rightarrow> bool" where
  "always_raises call tool = (\<forall>h. \<exists>e. call_mcp_tool tool (reply (call h tool)) = Inl e)"

section \<open>WorkflowManager: the two execution loops\<close>

text \<open>
  \<open>step_map = {step.step_id: step for step in steps}\<close>: of two steps with one id the later
  one stays.
\<close>

definition step_map :: "WorkflowStep list \<Rightarrow> string \<rightharpoonup> WorkflowStep" where
  "step_map sts = map_of (rev (map (\<lambda>s. (step_id s, s)) sts))"

text \<open>
  \<open>set(step.step_id for step in steps)\<close>. Python leaves the iteration order of a set
  open; for strings it follows the hash slots, which change from process to process.
  \<open>slot\<close> stands for that hash, and the set is the list of its elements in slot order.
  Removing an element keeps the order of the others.
\<close>

definition set_iteration :: "(string \<Rightarrow> nat) \<Rightarrow> string list \<Rightarrow> string list" where
  "set_iteration slot ids = sort_key slot (remdups ids)"

text \<open>\<open>all(dep in execution.completed_steps for dep in step.depends_on)\<close>\<close>

definition deps_completed :: "WorkflowExecution \<Rightarrow> WorkflowStep \<Rightarrow> bool" where
  "deps_completed ex step = list_all (\<lambda>dep. dep \<in> set (completed_steps ex)) (depends_on step)"

definition has_failed_dep :: "WorkflowExecution \<Rightarrow> WorkflowStep \<Rightarrow> bool" where
  "has_failed_dep ex step = list_ex (\<lambda>dep. dep \<in> set (failed_steps ex)) (depends_on step)"

text \<open>
  \<open>execution.progress_percentage = (completed_count / total_count) * 100\<close>, a float in
  the source and a real number here.
\<close>

definition update_progress :: "nat \<Rightarrow> run_state \<Rightarrow> run_state" where
  "update_progress total_count st =
     st\<lparr>execution := (execution st)\<lparr>progress_percentage :=
        (real (length (completed_steps (execution st)) + length (failed_steps (execution st)))
           / real total_count) * 100\<rparr>\<rparr>"

definition skip_failed :: "string list \<Rightarrow> run_state \<Rightarrow> run_state" where
  "skip_failed failed_deps st =
     st\<lparr>execution := (execution st)\<lparr>failed_steps := failed_steps (execution st) @ failed_deps\<rparr>\<rparr>"

lemma step_map_step_id: "step_map sts sid = Some s \<Longrightarrow> step_id s = sid"
  unfolding step_map_def by (auto dest!: map_of_SomeD)

lemma those_map_Some:
  "those (map f xs) = Some ys \<Longrightarrow> ys = map (\<lambda>x. the (f x)) xs \<and> (\<forall>x \<in> set xs. f x \<noteq> None)"
  by (induction xs arbitrary: ys) (auto split: option.splits)

lemma lookup_step_ids:
  assumes "those (map (step_map sts) remaining) = Some rem_steps"
  shows "map step_id rem_steps = remaining"
proof -
  from those_map_Some[OF assms] have ys: "rem_steps = map (\<lambda>x. the (step_map sts x)) remaining"
    and some: "\<forall>x \<in> set remaining. step_map sts x \<noteq> None" by auto
  have "\<forall>x \<in> set remaining. step_id (the (step_map sts x)) = x"
    using some step_map_step_id by fastforce
  then show ?thesis unfolding ys by (simp add: map_idI)
qed

lemma cascade_shrinks:
  assumes "those (map (step_map sts) remaining) = Some rem_steps"
    and "map step_id (filter P rem_steps) \<noteq> []"
  shows "length (filter (\<lambda>sid. sid \<notin> set (map step_id (filter P rem_steps))) remaining)
           < length remaining"
proof -
  from assms(2) obtain x where x: "x \<in> set (map step_id (filter P rem_steps))"
    by (cases "map step_id (filter P rem_steps)") auto
  then have "x \<in> set (map step_id rem_steps)" by auto
  then have "x \<in> set remaining" using lookup_step_ids[OF assms(1)] by simp
  then show ?thesis using x by (intro length_filter_less[of x]) auto
qed

lemma ready_step_remaining:
  assumes "those (map (step_map sts) remaining) = Some rem_steps"
    and "filter P rem_steps = step # ready_rest"
  shows "step_id step \<in> set remaining"
proof -
  have "step \<in> set (filter P rem_steps)" unfolding assms(2) by simp
  then have "step_id step \<in> set (map step_id rem_steps)" by auto
  then show ?thesis using lookup_step_ids[OF assms(1)] by simp
qed

lemma remove_ready_shrinks:
  assumes "those (map (step_map sts) remaining) = Some rem_steps"
    and "filter P rem_steps = step # ready_rest"
  shows "length (remove1 (step_id step) remaining) < length remaining"
proof -
  have "step_id step \<in> set remaining" by (rule ready_step_remaining[OF assms])
  then have "0 < length remaining" "length (remove1 (step_id step) remaining) = length remaining - 1"
    by (auto simp: length_remove1 length_pos_if_in_set)
  then show ?thesis by linarith
qed

text \<open>
  \<open>_execute_sequential_workflow\<close>, one turn of \<open>while remaining_steps\<close> per call. The
  exception of a failed step is not caught here, so it ends the loop. \<open>None\<close> as first
  component is the loop ending normally.
\<close>

function execute_sequential_workflow :: "invoker \<Rightarrow> WorkflowStep list \<Rightarrow> string list \<Rightarrow> run_state
    \<Rightarrow> error option \<times> run_state" where
  "execute_sequential_workflow call sts remaining st =
     (if remaining = [] then (None, st)
      else case those (map (step_map sts) remaining) of
        None \<Rightarrow> (Some (KeyError ''step_id''), st)
      | Some rem_steps \<Rightarrow>
          (case filter (deps_completed (execution st)) rem_steps of
             [] \<Rightarrow>
               (let failed_deps = map step_id (filter (has_failed_dep (execution st)) rem_steps)
                in if failed_deps \<noteq> []
                   then execute_sequential_workflow call sts
                          (filter (\<lambda>sid. sid \<notin> set failed_deps) remaining)
                          (skip_failed failed_deps st)
                   else (Some (WorkflowError ''No ready steps found - possible circular dependency''), st))
           | step # ready_rest \<Rightarrow>
               (case execute_step call step st of
                  (Some e, step', st') \<Rightarrow> (Some e, st')
                | (None, step', st') \<Rightarrow>
                    if length sts = 0 then (Some (ZeroDivisionError ''division by zero''), st')
                    else execute_sequential_workflow call sts
                           (remove1 (step_id step) remaining)
                           (update_progress (length sts) st'))))"
  by pat_completeness auto
termination
proof (relation "measure (\<lambda>(call, sts, remaining, st). length remaining)", goal_cases)
  case 1
  show ?case by simp
next
  case (2 call sts remaining st rem_steps failed_deps)
  then show ?case
    using cascade_shrinks[of sts remaining rem_steps "has_failed_dep (execution st)"] by simp
next
  case (3 call sts remaining st rem_steps step ready_rest x y xa ya)
  then show ?case
    using remove_ready_shrinks[of sts remaining rem_steps "deps_completed (execution st)" step ready_rest]
    by simp
qed

declare execute_sequential_workflow.simps [simp del]

text \<open>
  Parallel mode. Which of the tasks in flight are finished when
  \<open>asyncio.wait(..., return_when=FIRST_COMPLETED)\<close> returns is decided by timing; the
  scheduler stands for it, as a function of the history and of the ids in flight. The
  call returns at least one task, so a scheduler that names none of them stands for all
  finishing together.
\<close>

type_synonym scheduler = "event list \<Rightarrow> string list \<Rightarrow> string list"

definition finished_tasks :: "scheduler \<Rightarrow> run_state \<Rightarrow> WorkflowStep list \<Rightarrow> WorkflowStep list" where
  "finished_tasks sched st running =
     (case filter (\<lambda>s. step_id s \<in> set (sched (trace st) (map step_id running))) running of
        [] \<Rightarrow> running
      | d # ds \<Rightarrow> d # ds)"

text \<open>
  The tasks of one batch: each is a run of \<open>_execute_step\<close>, and the exception of a
  failed step is caught and logged by the loop (\<open>try: await task except Exception\<close>).
  A task writes to the execution only when it ends, so its run is placed at the moment
  it is found finished.
\<close>

fun run_tasks :: "invoker \<Rightarrow> WorkflowStep list \<Rightarrow> run_state \<Rightarrow> run_state" where
  "run_tasks call [] st = st"
| "run_tasks call (step # rest) st =
     (case execute_step call step st of (e, step', st') \<Rightarrow> run_tasks call rest st')"

text \<open>
  \<open>_execute_parallel_workflow\<close>, one turn of \<open>while remaining_steps or running_tasks\<close>
  per unit of fuel; \<open>None\<close> is the loop still turning when the fuel is spent. A turn with
  nothing in flight and nothing ready changes nothing and does not await.
\<close>

fun execute_parallel_workflow :: "nat \<Rightarrow> invoker \<Rightarrow> scheduler \<Rightarrow> WorkflowStep list
    \<Rightarrow> string list \<Rightarrow> WorkflowStep list \<Rightarrow> run_state \<Rightarrow> (error option \<times> run_state) option" where
  "execute_parallel_workflow 0 call sched sts remaining running st = None"
| "execute_parallel_workflow (Suc fuel) call sched sts remaining running st =
     (if remaining = [] \<and> running = [] then Some (None, st)
      else case those (map (step_map sts) remaining) of
        None \<Rightarrow> Some (Some (KeyError ''step_id''), st)
      | Some rem_steps \<Rightarrow>
          (let ready_steps = filter (deps_completed (execution st)) rem_steps;
               running1 = running @ ready_steps;
               remaining1 = filter (\<lambda>sid. sid \<notin> set (map step_id ready_steps)) remaining
           in if running1 = []
              then execute_parallel_workflow fuel call sched sts remaining1 running1 st
              else (let done = finished_tasks sched st running1;
                        st1 = run_tasks call done st
                    in if length sts = 0 then Some (Some (ZeroDivisionError ''division by zero''), st1)
                       else execute_parallel_workflow fuel call sched sts remaining1
                              (filter (\<lambda>s. step_id s \<notin> set (map step_id done)) running1)
                              (update_progress (length sts) st1))))"

section \<open>WorkflowManager: running and cancelling a workflow\<close>

record WorkflowManager =
  active_workflows :: "string \<rightharpoonup> WorkflowExecution"
  workflow_definitions :: "string \<rightharpoonup> WorkflowDefinition"

text \<open>
  \<open>_apply_runtime_parameters\<close> builds a fresh step object for every step (the
  substitution into the argument bag is not modelled, see \<open>WorkflowStep\<close>).
\<close>

definition apply_runtime_parameters :: "WorkflowStep list \<Rightarrow> WorkflowStep list" where
  "apply_runtime_parameters sts =
     map (\<lambda>s. new_step (step_id s) (name s) (tool_name s) (depends_on s) (max_retries s)) sts"

text \<open>The \<open>if / elif / else\<close> under "Determine final status".\<close>

definition final_status :: "WorkflowStep list \<Rightarrow> WorkflowExecution \<Rightarrow> WorkflowStatus" where
  "final_status sts ex =
     (if list_all (\<lambda>step. step_id step \<in> set (completed_steps ex)) sts then COMPLETED
      else if failed_steps ex \<noteq> [] then PARTIALLY_COMPLETED
      else FAILED)"

fun error_message :: "error \<Rightarrow> string" where
  "error_message (WorkflowError m) = m"
| "error_message (WorkflowTimeoutError m) = m"
| "error_message (WorkflowStepError m) = m"
| "error_message (WorkflowDependencyError m) = m"
| "error_message (ValidationError m) = m"
| "error_message (KeyError m) = m"
| "error_message (ZeroDivisionError m) = m"
| "error_message (TimeoutError m) = m"

text \<open>The two \<open>except\<close> clauses of \<open>execute_workflow\<close>, in their order.\<close>

fun reraise :: "string \<Rightarrow> error \<Rightarrow> error" where
  "reraise wid (TimeoutError m) = WorkflowTimeoutError (''Workflow '' @ wid @ '' timed out'')"
| "reraise wid e = WorkflowError (''Workflow execution failed: '' @ error_message e)"

text \<open>
  \<open>execute_workflow\<close>. The execution id is the caller's, or the fresh uuid. The result is
  \<open>None\<close> when the call does not return within the fuel; otherwise the exception raised
  or the execution returned, the manager (whose registry holds the execution object
  either way) and the trace of tool calls and sleeps. \<open>timeout_minutes\<close> is not read
  anywhere in the source of this function or of the loops.
\<close>

definition execute_workflow :: "nat \<Rightarrow> invoker \<Rightarrow> scheduler \<Rightarrow> (string \<Rightarrow> nat) \<Rightarrow> WorkflowManager
    \<Rightarrow> string \<Rightarrow> string \<Rightarrow> ((error + WorkflowExecution) \<times> WorkflowManager \<times> event list) option" where
  "execute_workflow fuel call sched slot mgr wid eid =
     (case workflow_definitions mgr wid of
        None \<Rightarrow> Some (Inl (WorkflowError (''Workflow not found: '' @ wid)), mgr, [])
      | Some workflow_def \<Rightarrow>
          (let st0 = \<lparr>execution = (new_execution eid wid)\<lparr>status := IN_PROGRESS\<rparr>, trace = []\<rparr>;
               sts = apply_runtime_parameters (steps workflow_def);
               remaining = set_iteration slot (map step_id sts)
           in case (if parallel_execution workflow_def
                    then execute_parallel_workflow fuel call sched sts remaining [] st0
                    else Some (execute_sequential_workflow call sts remaining st0)) of
                None \<Rightarrow> None
              | Some (None, st) \<Rightarrow>
                  (let ex = (execution st)\<lparr>status := final_status sts (execution st),
                                            progress_percentage := 100\<rparr>
                   in Some (Inr ex, mgr\<lparr>active_workflows := (active_workflows mgr)(eid \<mapsto> ex)\<rparr>,
                            trace st))
              | Some (Some e, st) \<Rightarrow>
                  (let ex = (execution st)\<lparr>status := FAILED\<rparr>
                   in Some (Inl (reraise wid e),
                            mgr\<lparr>active_workflows := (active_workflows mgr)(eid \<mapsto> ex)\<rparr>,
                            trace st))))"

definition cancel_workflow :: "WorkflowManager \<Rightarrow> string \<Rightarrow> bool \<times> WorkflowManager" where
  "cancel_workflow mgr eid =
     (case active_workflows mgr eid of
        Some ex \<Rightarrow> (True, mgr\<lparr>active_workflows := (active_workflows mgr)(eid \<mapsto> mark_cancelled ex)\<rparr>)
      | None \<Rightarrow> (False, mgr))"

text \<open>
  The template \<open>quarterly_analysis\<close> of \<open>WORKFLOW_TEMPLATES\<close> as
  \<open>_load_predefined_workflows\<close> builds it: the defaults of the model classes for
  \<open>max_retries\<close> (3), \<open>timeout_minutes\<close> (30) and \<open>parallel_execution\<close> (False).
\<close>

definition quarterly_analysis :: WorkflowDefinition where
  "quarterly_analysis =
     \<lparr>def_workflow_id = ''quarterly_analysis'',
      def_name = ''Quarterly Business Analysis'',
      description = ''Comprehensive quarterly business performance analysis'',
      steps =
        [new_step ''fetch_sales_data'' ''Fetch Sales Data'' ''query_database'' [] 3,
         new_step ''analyze_trends'' ''Analyze Trends'' ''start_thinking'' [''fetch_sales_data''] 3,
         new_step ''generate_report'' ''Generate Report'' ''finish_thinking'' [''analyze_trends''] 3,
         new_step ''email_report'' ''Email Report'' ''send_email'' [''generate_report''] 3],
      timeout_minutes = 30,
      parallel_execution = False\<rparr>"

definition template_manager :: WorkflowManager where
  "template_manager =
     \<lparr>active_workflows = Map.empty,
      workflow_definitions = [''quarterly_analysis'' \<mapsto> quarterly_analysis]\<rparr>"

section \<open>WorkflowManager: validating and creating a definition\<close>

text \<open>
  The inner function \<open>has_circular_dependency\<close> of \<open>_check_circular_dependencies\<close>. The two
  sets are mutated in place in the source, so they are returned here with the result:
  \<open>visited\<close> keeps every id entered, \<open>path\<close> loses the id again when the call returns
  \<open>False\<close>. \<open>check_dependencies\<close> is its loop \<open>for dep in step.depends_on\<close>, which stops
  at the first \<open>True\<close>.
\<close>

function has_circular_dependency :: "WorkflowStep list \<Rightarrow> string \<Rightarrow> string set \<Rightarrow> string set
      \<Rightarrow> bool \<times> string set \<times> string set"
  and check_dependencies :: "WorkflowStep list \<Rightarrow> string list \<Rightarrow> string set \<Rightarrow> string set
      \<Rightarrow> bool \<times> string set \<times> string set" where
  "has_circular_dependency sts sid visited path =
     (if sid \<in> path then (True, visited, path)
      else if sid \<in> visited then (False, visited, path)
      else (case step_map sts sid of
              None \<Rightarrow> (False, insert sid visited, insert sid path - {sid})
            | Some step \<Rightarrow>
                (case check_dependencies sts (depends_on step) (insert sid visited) (insert sid path) of
                   (True, visited', path') \<Rightarrow> (True, visited', path')
                 | (False, visited', path') \<Rightarrow> (False, visited', path' - {sid}))))"
| "check_dependencies sts [] visited path = (False, visited, path)"
| "check_dependencies sts (dep # deps) visited path =
     (case has_circular_dependency sts dep visited path of
        (True, visited', path') \<Rightarrow> (True, visited', path')
      | (False, visited', path') \<Rightarrow> check_dependencies sts deps visited' path')"
  by pat_completeness auto

lemma visited_grows:
  "has_circular_dependency_check_dependencies_dom (Inl (sts, sid, visited, path))
     \<Longrightarrow> visited \<subseteq> fst (snd (has_circular_dependency sts sid visited path))"
  "has_circular_dependency_check_dependencies_dom (Inr (sts, deps, visited, path))
     \<Longrightarrow> visited \<subseteq> fst (snd (check_dependencies sts deps visited path))"
proof (induction sts sid visited path and sts deps visited path
       rule: has_circular_dependency_check_dependencies.pinduct)
  case (1 sts sid visited path)
  then show ?case
    by (auto simp: has_circular_dependency.psimps split: option.splits prod.splits bool.splits)
next
  case (2 sts visited path)
  then show ?case by (simp add: check_dependencies.psimps)
next
  case (3 sts dep deps visited path)
  obtain b v p where r: "has_circular_dependency sts dep visited path = (b, v, p)"
    by (cases "has_circular_dependency sts dep visited path")
  with 3(2) have vv: "visited \<subseteq> v" by simp
  show ?case
  proof (cases b)
    case True
    then show ?thesis using 3(1) r vv by (simp add: check_dependencies.psimps)
  next
    case False
    with 3(3)[of b "(v, p)" v p] r have "v \<subseteq> fst (snd (check_dependencies sts deps v p))"
      by simp
    then show ?thesis using 3(1) r vv False by (simp add: check_dependencies.psimps)
  qed
qed

lemma step_map_dom: "step_map sts sid = Some s \<Longrightarrow> sid \<in> set (map step_id sts)"
  unfolding step_map_def by (auto dest!: map_of_SomeD)

termination has_circular_dependency
proof (relation "inv_image (less_than <*lex*> less_than)
          (\<lambda>x. case x of
                  Inl (sts, sid, visited, path) \<Rightarrow> (card (set (map step_id sts) - visited), 0)
                | Inr (sts, deps, visited, path) \<Rightarrow> (card (set (map step_id sts) - visited), Suc (length deps)))",
       goal_cases)
  case 1
  show ?case by (intro wf_inv_image wf_lex_prod wf_less_than)
next
  case (2 sts sid visited path step)
  then have "sid \<in> set (map step_id sts) - visited" using step_map_dom by fastforce
  then have "card (set (map step_id sts) - insert sid visited) < card (set (map step_id sts) - visited)"
    by (intro psubset_card_mono) auto
  then show ?case by simp
next
  case (3 sts dep deps visited path)
  then show ?case by simp
next
  case (4 sts dep deps visited path x y xa ya)
  then have "visited \<subseteq> xa" using visited_grows(1)[of sts dep visited path]
    by (metis fst_conv snd_conv)
  then have "card (set (map step_id sts) - xa) \<le> card (set (map step_id sts) - visited)"
    by (intro card_mono) auto
  then show ?case by auto
qed


declare has_circular_dependency.simps [simp del]

text \<open>
  The loop \<open>for step in steps\<close> of \<open>_check_circular_dependencies\<close>: one set \<open>visited\<close>
  for all roots, a fresh \<open>path\<close> for each.
\<close>

fun check_roots :: "WorkflowStep list \<Rightarrow> WorkflowStep list \<Rightarrow> string set \<Rightarrow> bool" where
  "check_roots sts [] visited = False"
| "check_roots sts (step # rest) visited =
     (if step_id step \<notin> visited
      then (case has_circular_dependency sts (step_id step) visited {} of
              (True, visited', path') \<Rightarrow> True
            | (False, visited', path') \<Rightarrow> check_roots sts rest visited')
      else check_roots sts rest visited)"

definition check_circular_dependencies :: "WorkflowStep list \<Rightarrow> error option" where
  "check_circular_dependencies sts =
     (if check_roots sts sts {}
      then Some (WorkflowDependencyError ''Circular dependency detected in workflow'')
      else None)"

text \<open>The first pair of a step and a dependency of it that names no step, in loop order.\<close>

definition missing_dependency :: "WorkflowStep list \<Rightarrow> (string \<times> string) option" where
  "missing_dependency sts =
     find (\<lambda>(sid, dep). dep \<notin> set (map step_id sts))
       (concat (map (\<lambda>s. map (Pair (step_id s)) (depends_on s)) sts))"

text \<open>\<open>_validate_workflow_definition\<close>: \<open>None\<close> when it returns, the exception otherwise.\<close>

definition validate_workflow_definition :: "WorkflowStep list \<Rightarrow> error option" where
  "validate_workflow_definition sts =
     (if card (set (map step_id sts)) \<noteq> length sts
      then Some (WorkflowError ''Duplicate step IDs found in workflow'')
      else case missing_dependency sts of
        Some (sid, dep) \<Rightarrow>
          Some (WorkflowDependencyError (''Step '' @ sid @ '' depends on non-existent step '' @ dep))
      | None \<Rightarrow> check_circular_dependencies sts)"

text \<open>
  One entry of the argument \<open>steps: List[Dict[str, Any]]\<close> of \<open>create_workflow\<close>; the keys
  read with \<open>.get\<close> may be absent.
\<close>

record step_data =
  sd_step_id :: string
  sd_name :: string
  sd_tool_name :: string
  sd_depends_on :: "string list option"
  sd_max_retries :: "int option"

definition step_of_data :: "step_data \<Rightarrow> WorkflowStep" where
  "step_of_data d =
     new_step (sd_step_id d) (sd_name d) (sd_tool_name d)
       (case sd_depends_on d of None \<Rightarrow> [] | Some deps \<Rightarrow> deps)
       (case sd_max_retries d of None \<Rightarrow> 3 | Some m \<Rightarrow> m)"

text \<open>
  \<open>create_workflow\<close>: the steps are built, validated, and the definition is constructed
  and stored. The constructor of \<open>WorkflowDefinition\<close> checks
  \<open>timeout_minutes: int = Field(default=30, ge=1, le=480)\<close> and raises pydantic's
  \<open>ValidationError\<close> outside that range.
\<close>

definition create_workflow :: "WorkflowManager \<Rightarrow> string \<Rightarrow> string \<Rightarrow> string \<Rightarrow> step_data list
    \<Rightarrow> int \<Rightarrow> bool \<Rightarrow> error + (WorkflowDefinition \<times> WorkflowManager)" where
  "create_workflow mgr wid nm descr sds timeout par =
     (let workflow_steps = map step_of_data sds
      in case validate_workflow_definition workflow_steps of
           Some e \<Rightarrow> Inl e
         | None \<Rightarrow>
             if timeout < 1 \<or> 480 < timeout
             then Inl (ValidationError ''timeout_minutes'')
             else (let workflow = \<lparr>def_workflow_id = wid, def_name = nm, description = descr,
                                   steps = workflow_steps, timeout_minutes = timeout,
                                   parallel_execution = par\<rparr>
                   in Inr (workflow,
                           mgr\<lparr>workflow_definitions := (workflow_definitions mgr)(wid \<mapsto> workflow)\<rparr>)))"

text \<open>
  The three defects in the words of the specification: two steps share a step id; a
  dependency names a step id not present in the definition; the dependency graph
  contains a cycle.
\<close>

definition shares_step_id :: "WorkflowStep list \<Rightarrow> bool" where
  "shares_step_id sts =
     (\<exists>i j. i < j \<and> j < length sts \<and> step_id (sts ! i) = step_id (sts ! j))"

definition dangling_dependency :: "WorkflowStep list \<Rightarrow> bool" where
  "dangling_dependency sts =
     (\<exists>s \<in> set sts. \<exists>dep \<in> set (depends_on s). dep \<notin> step_id ` set sts)"

definition depends_rel :: "WorkflowStep list \<Rightarrow> (string \<times> string) set" where
  "depends_rel sts = {(a, b). \<exists>s \<in> set sts. step_id s = a \<and> b \<in> set (depends_on s)}"

definition dependency_cycle :: "WorkflowStep list \<Rightarrow> bool" where
  "dependency_cycle sts = (\<exists>a. (a, a) \<in> (depends_rel sts)\<^sup>+)"

definition is_definition_error :: "error \<Rightarrow> bool" where
  "is_definition_error e =
     (case e of WorkflowError m \<Rightarrow> True | WorkflowDependencyError m \<Rightarrow> True | _ \<Rightarrow> False)"

section \<open>MCPClient.call_tool (mcp_client.py)\<close>

text \<open>The exception classes of mcp_client.py, each with its message.\<close>

datatype mcp_error =
    MCPError string
  | MCPAuthError string
  | MCPTimeoutError string
  | MCPToolError string
  | MCPRateLimitError string
  | MCPServerError string

text \<open>
  What one \<open>self._client.post\<close> gives: a response with its status code and body, or an
  exception of httpx or of some other kind. A body is JSON with a \<open>result\<close>, JSON with an
  \<open>error\<close> (for a JSON-RPC error its \<open>code\<close> and \<open>message\<close>, either of which may be
  absent), or text that is not JSON.
\<close>

datatype response_body =
    JsonResult "string option"
  | JsonError "int option" "string option"
  | NotJson string

datatype http_result =
    Response int response_body
  | TimeoutException string
  | ConnectError string
  | OtherException string

text \<open>\<open>MCPRequestMetrics\<close> without the moving average of response times.\<close>

record MCPRequestMetrics =
  total_requests :: nat
  successful_requests :: nat
  failed_requests :: nat
  timeout_requests :: nat
  retry_requests :: nat
  rate_limit_hits :: nat

text \<open>
  The client as far as \<open>call_tool\<close> reads it, together with a log of what the call did:
  the number of requests posted and the seconds of each back-off sleep
  (\<open>_rate_limit_check\<close>, which only delays a request, is not modelled).
\<close>

record MCPClient =
  initialized :: bool
  client_retry_count :: int
  metrics :: MCPRequestMetrics
  requests :: nat
  backoff :: "nat list"

text \<open>\<open>str\<close> of an integer, for the messages built with f-strings.\<close>

fun str_nat :: "nat \<Rightarrow> string" where
  "str_nat n = (if n < 10 then [char_of (48 + n)] else str_nat (n div 10) @ [char_of (48 + n mod 10)])"

declare str_nat.simps [simp del]

definition str_int :: "int \<Rightarrow> string" where
  "str_int i = (if i < 0 then ''-'' @ str_nat (nat (- i)) else str_nat (nat i))"

text \<open>
  \<open>error_data.get("error", default)\<close> after \<open>_safe_json_parse\<close>: the \<open>error\<close> entry of the
  body if it has one (for text that is not JSON, the text, or \<open>Unknown error\<close> when empty).
\<close>

fun error_field :: "response_body \<Rightarrow> string \<Rightarrow> string" where
  "error_field (JsonResult r) dflt = dflt"
| "error_field (JsonError code msg) dflt = (case msg of None \<Rightarrow> ''Unknown error'' | Some m \<Rightarrow> m)"
| "error_field (NotJson t) dflt = (if t = [] then ''Unknown error'' else t)"

definition failure_response :: "string \<Rightarrow> string \<Rightarrow> int \<Rightarrow> MCPResponse" where
  "failure_response tool msg attempt =
     \<lparr>success = False, data = None, error = Some msg, resp_tool_name = Some tool,
      resp_status = REQUEST_FAILED, resp_retry_count = attempt\<rparr>"

definition bump_failed :: "MCPClient \<Rightarrow> MCPClient" where
  "bump_failed c = c\<lparr>metrics := (metrics c)\<lparr>failed_requests := failed_requests (metrics c) + 1\<rparr>\<rparr>"

text \<open>
  How the body of the \<open>try\<close> ends for one response: it returns, it sleeps and continues
  with the next attempt, or it raises. Every \<open>raise\<close> below stands inside the \<open>try\<close>.
\<close>

datatype try_end =
    Returns MCPResponse
  | Continues nat
  | Raises mcp_error
  | RaisesOther string

definition handle_response :: "string \<Rightarrow> int \<Rightarrow> int \<Rightarrow> int \<Rightarrow> response_body \<Rightarrow> MCPClient
    \<Rightarrow> try_end \<times> MCPClient" where
  "handle_response tool attempt retry_attempts status_code body c =
     (if status_code = 200 then
        (case body of
           NotJson t \<Rightarrow> (RaisesOther (''Expecting value: '' @ t), c)
         | JsonError code msg \<Rightarrow>
             (if (case code of None \<Rightarrow> - 32000 | Some k \<Rightarrow> k) = - 32601
              then (Returns (failure_response tool (''Tool '' @ [CHR 39] @ tool @ [CHR 39] @ '' not found'') attempt),
                    bump_failed c)
              else (Returns (failure_response tool
                               (case msg of None \<Rightarrow> ''Unknown error'' | Some m \<Rightarrow> m) attempt),
                    bump_failed c))
         | JsonResult r \<Rightarrow>
             (Returns \<lparr>success = True, data = r, error = None, resp_tool_name = Some tool,
                       resp_status = SUCCESS, resp_retry_count = attempt\<rparr>,
              c\<lparr>metrics := (metrics c)\<lparr>successful_requests := successful_requests (metrics c) + 1\<rparr>\<rparr>))
      else if status_code = 401 then
        (Raises (MCPAuthError (''Authentication failed: Invalid GitHub OAuth token for tool '' @ tool)),
         bump_failed c)
      else if status_code = 429 then
        (let c1 = c\<lparr>metrics := (metrics c)\<lparr>rate_limit_hits := rate_limit_hits (metrics c) + 1\<rparr>\<rparr>
         in if attempt < retry_attempts then (Continues (min (2 ^ nat attempt) 60), c1)
            else (Raises (MCPRateLimitError (''Rate limit exceeded for tool '' @ tool)), c1))
      else if status_code \<ge> 500 then
        (let error_msg = error_field body (''Server error: '' @ str_int status_code)
         in if attempt < retry_attempts then (Continues (min (2 ^ nat attempt) 30), c)
            else (Raises (MCPServerError (''Server error calling '' @ tool @ '': '' @ error_msg)), c))
      else
        (let error_msg = error_field body (''Client error: '' @ str_int status_code)
         in (Returns (failure_response tool error_msg attempt), bump_failed c)))"

fun mcp_message :: "mcp_error \<Rightarrow> string" where
  "mcp_message (MCPError m) = m"
| "mcp_message (MCPAuthError m) = m"
| "mcp_message (MCPTimeoutError m) = m"
| "mcp_message (MCPToolError m) = m"
| "mcp_message (MCPRateLimitError m) = m"
| "mcp_message (MCPServerError m) = m"

text \<open>
  One turn of \<open>for attempt in range(retry_attempts + 1)\<close>: the request, the body of the
  \<open>try\<close>, and the three \<open>except\<close> clauses. The exceptions raised by the \<open>try\<close> body
  itself are exceptions like any other, so the clause \<open>except Exception\<close> receives them:
  it retries while attempts are left and raises \<open>MCPToolError\<close> at the last one.
\<close>

definition sleep :: "nat \<Rightarrow> MCPClient \<Rightarrow> MCPClient" where
  "sleep n c = c\<lparr>backoff := backoff c @ [n]\<rparr>"

definition except_exception :: "string \<Rightarrow> int \<Rightarrow> int \<Rightarrow> string \<Rightarrow> MCPClient
    \<Rightarrow> (mcp_error + MCPResponse) option \<times> MCPClient" where
  "except_exception tool attempt retry_attempts e c =
     (if attempt < retry_attempts then (None, sleep (min (2 ^ nat attempt) 30) c)
      else (Some (Inl (MCPToolError (''Unexpected error calling '' @ tool @ '': '' @ e))), c))"

definition attempt_once :: "string \<Rightarrow> int \<Rightarrow> int \<Rightarrow> http_result \<Rightarrow> MCPClient
    \<Rightarrow> (mcp_error + MCPResponse) option \<times> MCPClient" where
  "attempt_once tool attempt retry_attempts posted c0 =
     (let c = c0\<lparr>requests := requests c0 + 1\<rparr>
      in case posted of
           Response status_code body \<Rightarrow>
             (case handle_response tool attempt retry_attempts status_code body c of
                (Returns r, c1) \<Rightarrow> (Some (Inr r), c1)
              | (Continues n, c1) \<Rightarrow> (None, sleep n c1)
              | (Raises e, c1) \<Rightarrow> except_exception tool attempt retry_attempts (mcp_message e) c1
              | (RaisesOther e, c1) \<Rightarrow> except_exception tool attempt retry_attempts e c1)
         | TimeoutException e \<Rightarrow>
             (let c1 = c\<lparr>metrics := (metrics c)\<lparr>timeout_requests := timeout_requests (metrics c) + 1\<rparr>\<rparr>
              in if attempt < retry_attempts then (None, sleep (min (2 ^ nat attempt) 30) c1)
                 else (Some (Inl (MCPTimeoutError (''Timeout calling '' @ tool @ '' after ''
                                    @ str_int retry_attempts @ '' retries''))), c1))
         | ConnectError e \<Rightarrow>
             (if attempt < retry_attempts then (None, sleep (min (2 ^ nat attempt) 30) c)
              else (Some (Inl (MCPError (''Connection failed to MCP server for tool '' @ tool
                                 @ '': '' @ e))), c))
         | OtherException e \<Rightarrow> except_exception tool attempt retry_attempts e c)"

text \<open>
  The loop over the attempts left; the server is a function of the number of requests
  this client has posted. The empty list is the code after the loop, reached only when
  the range is empty.
\<close>

fun attempts_loop :: "(nat \<Rightarrow> http_result) \<Rightarrow> string \<Rightarrow> int \<Rightarrow> int list \<Rightarrow> MCPClient
    \<Rightarrow> (mcp_error + MCPResponse) \<times> MCPClient" where
  "attempts_loop server tool retry_attempts [] c =
     (Inl (MCPToolError (''All retry attempts failed for '' @ tool)), bump_failed c)"
| "attempts_loop server tool retry_attempts (attempt # rest) c =
     (case attempt_once tool attempt retry_attempts (server (requests c)) c of
        (Some r, c1) \<Rightarrow> (r, c1)
      | (None, c1) \<Rightarrow> attempts_loop server tool retry_attempts rest c1)"

text \<open>
  \<open>call_tool\<close>; \<open>retry_override\<close> is its argument \<open>retry_count\<close>.
  \<open>retry_count or self.retry_count\<close> takes the client's count also when the
  argument is 0.
\<close>

definition call_tool :: "(nat \<Rightarrow> http_result) \<Rightarrow> MCPClient \<Rightarrow> string \<Rightarrow> int option
    \<Rightarrow> (mcp_error + MCPResponse) \<times> MCPClient" where
  "call_tool server c tool retry_override =
     (if \<not> initialized c
      then (Inl (MCPError ''MCP client not initialized. Use async context manager.''), c)
      else (let retry_attempts = (case retry_override of
                                    None \<Rightarrow> client_retry_count c
                                  | Some n \<Rightarrow> if n = 0 then client_retry_count c else n);
                c1 = c\<lparr>metrics := (metrics c)\<lparr>total_requests := total_requests (metrics c) + 1\<rparr>\<rparr>
            in attempts_loop server tool retry_attempts [0..retry_attempts] c1))"

text \<open>A fresh client with the default \<open>retry_count = 3\<close>, and a server that answers 401.\<close>

definition fresh_client :: MCPClient where
  "fresh_client =
     \<lparr>initialized = True, client_retry_count = 3,
      metrics = \<lparr>total_requests = 0, successful_requests = 0, failed_requests = 0,
                 timeout_requests = 0, retry_requests = 0, rate_limit_hits = 0\<rparr>,
      requests = 0, backoff = []\<rparr>"

definition unauthorized :: "nat \<Rightarrow> http_result" where
  "unauthorized n = Response 401 (JsonError None (Some ''Unauthorized''))"

section \<open>Reading a trace\<close>

text \<open>
  The kind of an event: \<open>None\<close> for a tool invocation, the seconds for a sleep. A step
  with \<open>m\<close> retries left to it from attempt \<open>a\<close> that fails throughout shows the pattern
  invocation, sleep \<open>2 ^ a\<close>, invocation, sleep \<open>2 ^ (a + 1)\<close>, ..., invocation.
\<close>

fun event_kind :: "event \<Rightarrow> nat option" where
  "event_kind (Invoked sid tool secs) = None"
| "event_kind (Slept n) = Some n"

definition retry_pattern :: "nat \<Rightarrow> nat \<Rightarrow> nat option list" where
  "retry_pattern a m = concat (map (\<lambda>k. [None, Some (2 ^ k)]) [a..<m]) @ [None]"

section \<open>Example inputs\<close>

definition ok_response :: MCPResponse where
  "ok_response = \<lparr>success = True, data = Some ''ok'', error = None, resp_tool_name = None,
                   resp_status = SUCCESS, resp_retry_count = 0\<rparr>"

definition ok_reply :: tool_reply where
  "ok_reply = \<lparr>reply = Returned ok_response, seconds = 1, cancel_requested = False\<rparr>"

text \<open>An invoker whose \<open>send_email\<close> raises on every call, all other tools succeeding.\<close>

definition email_down :: invoker where
  "email_down h t =
     (if t = ''send_email''
      then \<lparr>reply = RaisedMCPError ''smtp down'', seconds = 1, cancel_requested = False\<rparr>
      else ok_reply)"

text \<open>A hash under which the ids of \<open>quarterly_analysis\<close> iterate in definition order.\<close>

definition template_order :: "string \<Rightarrow> nat" where
  "template_order s =
     (if s = ''fetch_sales_data'' then 0 else if s = ''analyze_trends'' then 1
      else if s = ''generate_report'' then 2 else 3)"

definition empty_state :: run_state where
  "empty_state = \<lparr>execution = new_execution ''run-1'' ''w'', trace = []\<rparr>"

definition email_step :: WorkflowStep where
  "email_step = new_step ''email_report'' ''Email Report'' ''send_email'' [] 2"

section \<open>The dependency graph\<close>

text \<open>
  The graph the cycle check walks: an edge from a step id to each id in the
  \<open>depends_on\<close> of the step that \<open>step_map\<close> holds for it. \<open>dfs_inv\<close> and \<open>dfs_post\<close>
  state what the walk keeps true: the ids entered and left again (\<open>V - P\<close>) are closed
  under the edges and lie on no cycle.
\<close>

definition edges :: "WorkflowStep list \<Rightarrow> (string \<times> string) set" where
  "edges sts = {(a, b). \<exists>s. step_map sts a = Some s \<and> b \<in> set (depends_on s)}"

definition cyclic :: "WorkflowStep list \<Rightarrow> bool" where
  "cyclic sts = (\<exists>x. (x, x) \<in> (edges sts)\<^sup>+)"

definition dfs_inv :: "WorkflowStep list \<Rightarrow> string set \<Rightarrow> string set \<Rightarrow> bool" where
  "dfs_inv sts V P =
     (P \<subseteq> V \<and> (\<forall>b \<in> V - P. \<forall>c. (b, c) \<in> edges sts \<longrightarrow> c \<in> V - P)
      \<and> (\<forall>b \<in> V - P. (b, b) \<notin> (edges sts)\<^sup>+))"

definition dfs_post :: "WorkflowStep list \<Rightarrow> string set \<Rightarrow> string set \<Rightarrow> string set
    \<Rightarrow> bool \<times> string set \<times> string set \<Rightarrow> bool" where
  "dfs_post sts V P S r =
     (if fst r then cyclic sts
      else snd (snd r) = P \<and> V \<subseteq> fst (snd r) \<and> S \<subseteq> fst (snd r) - P
           \<and> dfs_inv sts (fst (snd r)) P)"


section \<open>More example inputs\<close>

text \<open>
  A tool \<open>flaky\<close> that raises on every call; the definition \<open>chain\<close> of a step \<open>a\<close> that
  uses it and a step \<open>b\<close> that depends on \<open>a\<close>, in sequential or parallel mode; a
  parallel definition of the step \<open>a\<close> alone; and a definition with
  \<open>timeout_minutes = 1\<close> whose one tool call takes two hours.
\<close>

definition flaky_down :: invoker where
  "flaky_down h t =
     (if t = ''flaky''
      then \<lparr>reply = RaisedException ''boom'', seconds = 1, cancel_requested = False\<rparr>
      else ok_reply)"

definition chain_definition :: "bool \<Rightarrow> WorkflowDefinition" where
  "chain_definition par =
     \<lparr>def_workflow_id = ''chain'', def_name = ''Chain'', description = ''B after A'',
      steps = [new_step ''a'' ''A'' ''flaky'' [] 0, new_step ''b'' ''B'' ''solid'' [''a''] 0],
      timeout_minutes = 30, parallel_execution = par\<rparr>"

definition chain_manager :: "bool \<Rightarrow> WorkflowManager" where
  "chain_manager par =
     \<lparr>active_workflows = Map.empty, workflow_definitions = [''chain'' \<mapsto> chain_definition par]\<rparr>"

definition first_seen :: "string \<Rightarrow> nat" where
  "first_seen s = 0"

definition all_at_once :: scheduler where
  "all_at_once h running = running"

definition single_definition :: WorkflowDefinition where
  "single_definition =
     \<lparr>def_workflow_id = ''single'', def_name = ''Single'', description = ''one step'',
      steps = [new_step ''a'' ''A'' ''flaky'' [] 0],
      timeout_minutes = 30, parallel_execution = True\<rparr>"

definition single_manager :: WorkflowManager where
  "single_manager =
     \<lparr>active_workflows = Map.empty, workflow_definitions = [''single'' \<mapsto> single_definition]\<rparr>"

definition slow_reply :: invoker where
  "slow_reply h t = \<lparr>reply = Returned ok_response, seconds = 7200, cancel_requested = False\<rparr>"

definition slow_definition :: WorkflowDefinition where
  "slow_definition =
     \<lparr>def_workflow_id = ''slow'', def_name = ''Slow'', description = ''one long call'',
      steps = [new_step ''a'' ''A'' ''report'' [] 0],
      timeout_minutes = 1, parallel_execution = False\<rparr>"

definition slow_manager :: WorkflowManager where
  "slow_manager =
     \<lparr>active_workflows = Map.empty, workflow_definitions = [''slow'' \<mapsto> slow_definition]\<rparr>"

definition empty_manager :: WorkflowManager where
  "empty_manager = \<lparr>active_workflows = Map.empty, workflow_definitions = Map.empty\<rparr>"


section \<open>Cancellation: definitions\<close>

text \<open>
  An invoker with the cancellation requests taken out, and a run state with the status
  put back to \<open>IN_PROGRESS\<close>: the two loops read neither. \<open>cancel_at_first\<close> is an invoker
  whose tools all succeed and during whose first call \<open>cancel_workflow\<close> is called for the
  running execution.
\<close>

definition ignore_cancel :: "invoker \<Rightarrow> invoker" where
  "ignore_cancel call h t = (call h t)\<lparr>cancel_requested := False\<rparr>"

definition forget_status :: "run_state \<Rightarrow> run_state" where
  "forget_status st = st\<lparr>execution := (execution st)\<lparr>status := IN_PROGRESS\<rparr>\<rparr>"

definition cancel_at_first :: invoker where
  "cancel_at_first h t = ok_reply\<lparr>cancel_requested := (h = [])\<rparr>"

section \<open>The order of steps in sequential mode: definitions\<close>

text \<open>
  Two steps \<open>a\<close> and \<open>b\<close> with no dependencies, in this order in the definition; an
  invoker whose tools all succeed; a hash under which \<open>b\<close> comes before \<open>a\<close>, and one
  under which the ids come in definition order.
\<close>

definition reversed_slots :: "string \<Rightarrow> nat" where
  "reversed_slots s = (if s = ''a'' then 1 else 0)"

definition definition_slots :: "string \<Rightarrow> nat" where
  "definition_slots s = (if s = ''a'' then 0 else 1)"

definition always_ok :: invoker where
  "always_ok h t = ok_reply"

definition pair_a :: WorkflowStep where
  "pair_a = new_step ''a'' ''A'' ''first'' [] 0"

definition pair_b :: WorkflowStep where
  "pair_b = new_step ''b'' ''B'' ''second'' [] 0"

definition pair_definition :: WorkflowDefinition where
  "pair_definition =
     \<lparr>def_workflow_id = ''pair'', def_name = ''Pair'', description = ''two independent steps'',
      steps = [pair_a, pair_b],
      timeout_minutes = 30, parallel_execution = False\<rparr>"

definition pair_manager :: WorkflowManager where
  "pair_manager =
     \<lparr>active_workflows = Map.empty, workflow_definitions = [''pair'' \<mapsto> pair_definition]\<rparr>"

section \<open>Failed responses and the dependents of a failed step: definitions\<close>

text \<open>
  The response \<open>call_tool\<close> returns when the server answers \<open>Method not found\<close>, and
  an invoker that returns it on every call; the state of a run of \<open>chain\<close> in which step
  \<open>a\<close> has failed and \<open>b\<close> remains.
\<close>

definition not_found_response :: MCPResponse where
  "not_found_response = failure_response ''send_email'' (''Tool '' @ [CHR 39] @ ''send_email'' @ [CHR 39] @ '' not found'') 0"

definition tool_missing :: invoker where
  "tool_missing h t = \<lparr>reply = Returned not_found_response, seconds = 1, cancel_requested = False\<rparr>"

definition method_not_found :: "nat \<Rightarrow> http_result" where
  "method_not_found n = Response 200 (JsonError (Some (- 32601)) None)"

definition a_failed_state :: run_state where
  "a_failed_state =
     \<lparr>execution = (new_execution ''run-1'' ''chain'')
          \<lparr>status := IN_PROGRESS, failed_steps := [''a''], errors := [''a'' \<mapsto> ''boom'']\<rparr>,
      trace = []\<rparr>"

section \<open>The retry loop of a step\<close>

lemma retry_pattern_step:
  "a < m \<Longrightarrow> retry_pattern a m = [None, Some (2 ^ a)] @ retry_pattern (Suc a) m"
  by (simp add: retry_pattern_def upt_conv_Cons)

lemma retry_pattern_last: "retry_pattern m m = [None]"
  by (simp add: retry_pattern_def)

lemma await_tool_fields:
  "await_tool call step st = (r, st1) \<Longrightarrow>
     trace st1 = trace st @ [Invoked (step_id step) (tool_name step)
                               (seconds (call (trace st) (tool_name step)))]
     \<and> r = reply (call (trace st) (tool_name step))
     \<and> completed_steps (execution st1) = completed_steps (execution st)
     \<and> failed_steps (execution st1) = failed_steps (execution st)
     \<and> errors (execution st1) = errors (execution st)
     \<and> results (execution st1) = results (execution st)"
  by (auto simp: await_tool_def Let_def mark_cancelled_def)

text \<open>
  The loop from attempt \<open>a\<close> on, for a tool that raises on every call: it raises the
  step error after \<open>m - a + 1\<close> invocations with the sleeps of the pattern between them.
\<close>

lemma attempt_loop_fails:
  assumes "always_raises call tn"
  shows "tool_name step = tn \<Longrightarrow> step_id step = sid \<Longrightarrow> max_retries step = m
    \<Longrightarrow> 0 \<le> a \<Longrightarrow> a \<le> m \<Longrightarrow> n = nat (m - a)
    \<Longrightarrow> \<exists>msg step' st'. attempt_loop call [a..m] step st = (Some (WorkflowStepError msg), step', st')
        \<and> map event_kind (trace st') = map event_kind (trace st) @ retry_pattern (nat a) (nat m)
        \<and> invocations (trace st') sid = invocations (trace st) sid + nat (m - a + 1)
        \<and> step_status step' = Step_FAILED
        \<and> failed_steps (execution st') = failed_steps (execution st) @ [sid]
        \<and> completed_steps (execution st') = completed_steps (execution st)
        \<and> errors (execution st') sid \<noteq> None"
proof (induction n arbitrary: a step st)
  case 0
  then have am: "a = m" by simp
  obtain r st1 where aw: "await_tool call step st = (r, st1)"
    by (cases "await_tool call step st")
  from await_tool_fields[OF aw] assms 0 obtain e where e: "call_mcp_tool (tool_name step) r = Inl e"
    by (auto simp: always_raises_def)
  have up: "[a..m] = [m]" using am by simp
  show ?case using aw e 0 am await_tool_fields[OF aw]
    by (simp add: up retry_pattern_last invocations_def record_failed_def)
next
  case (Suc n)
  then have lt: "a < m" by simp
  obtain r st1 where aw: "await_tool call step st = (r, st1)"
    by (cases "await_tool call step st")
  from await_tool_fields[OF aw] assms Suc.prems obtain e where e: "call_mcp_tool (tool_name step) r = Inl e"
    by (auto simp: always_raises_def)
  have up: "[a..m] = a # [a + 1..m]" using lt by (simp add: upto_rec1)
  let ?step1 = "step\<lparr>retry_count := a, step_error := Some e\<rparr>"
  let ?st2 = "st1\<lparr>trace := trace st1 @ [Slept (2 ^ nat a)]\<rparr>"
  have IH: "\<exists>msg step' st'. attempt_loop call [a + 1..m] ?step1 ?st2 = (Some (WorkflowStepError msg), step', st')
        \<and> map event_kind (trace st') = map event_kind (trace ?st2) @ retry_pattern (nat (a + 1)) (nat m)
        \<and> invocations (trace st') sid = invocations (trace ?st2) sid + nat (m - (a + 1) + 1)
        \<and> step_status step' = Step_FAILED
        \<and> failed_steps (execution st') = failed_steps (execution ?st2) @ [sid]
        \<and> completed_steps (execution st') = completed_steps (execution ?st2)
        \<and> errors (execution st') sid \<noteq> None"
    using Suc.prems lt by (intro Suc.IH) auto
  have nat_a: "nat (a + 1) = Suc (nat a)" using Suc.prems by simp
  have rp: "retry_pattern (nat a) (nat m) = [None, Some (2 ^ nat a)] @ retry_pattern (Suc (nat a)) (nat m)"
    using lt Suc.prems by (intro retry_pattern_step) simp
  have cnt: "nat (m - a + 1) = Suc (nat (m - (a + 1) + 1))" using lt by simp
  from IH obtain msg step' st' where
    res: "attempt_loop call [a + 1..m] ?step1 ?st2 = (Some (WorkflowStepError msg), step', st')"
    and rest: "map event_kind (trace st') = map event_kind (trace ?st2) @ retry_pattern (nat (a + 1)) (nat m)"
      "invocations (trace st') sid = invocations (trace ?st2) sid + nat (m - (a + 1) + 1)"
      "step_status step' = Step_FAILED"
      "failed_steps (execution st') = failed_steps (execution ?st2) @ [sid]"
      "completed_steps (execution st') = completed_steps (execution ?st2)"
      "errors (execution st') sid \<noteq> None"
    by blast
  have "attempt_loop call [a..m] step st = (Some (WorkflowStepError msg), step', st')"
    using aw e lt Suc.prems res by (simp add: up Let_def)
  moreover have "map event_kind (trace st') = map event_kind (trace st) @ retry_pattern (nat a) (nat m)"
    using rest(1) await_tool_fields[OF aw] by (simp add: rp nat_a)
  moreover have "invocations (trace st') sid = invocations (trace st) sid + nat (m - a + 1)"
    using rest(2) await_tool_fields[OF aw] Suc.prems by (simp add: cnt invocations_def)
  ultimately show ?case using rest await_tool_fields[OF aw] by simp
qed

text \<open>
  The retry budget when the failure is an exception. A step with \<open>max_retries \<ge> 0\<close>
  whose tool raises on every call: \<open>_execute_step\<close> invokes the tool exactly
  \<open>max_retries + 1\<close> times, sleeps \<open>2 ^ attempt\<close> seconds after each attempt but the last
  (1, 2, 4, ... between consecutive invocations), and only then marks the step failed,
  appends its id to \<open>failed_steps\<close> and raises the step error.
\<close>

theorem execute_step_retry_budget:
  assumes "0 \<le> max_retries step" and "always_raises call (tool_name step)"
  shows "\<exists>msg step' st'. execute_step call step st = (Some (WorkflowStepError msg), step', st')
        \<and> invocations (trace st') (step_id step)
            = invocations (trace st) (step_id step) + nat (max_retries step + 1)
        \<and> map event_kind (trace st')
            = map event_kind (trace st) @ retry_pattern 0 (nat (max_retries step))
        \<and> step_status step' = Step_FAILED
        \<and> failed_steps (execution st') = failed_steps (execution st) @ [step_id step]
        \<and> completed_steps (execution st') = completed_steps (execution st)"
proof -
  let ?step = "step\<lparr>step_status := Step_RUNNING\<rparr>"
  let ?st = "st\<lparr>execution := (execution st)\<lparr>current_step := Some (step_id step)\<rparr>\<rparr>"
  have "\<exists>msg step' st'. attempt_loop call [0..max_retries step] ?step ?st
            = (Some (WorkflowStepError msg), step', st')
        \<and> map event_kind (trace st') = map event_kind (trace ?st) @ retry_pattern (nat 0) (nat (max_retries step))
        \<and> invocations (trace st') (step_id step)
            = invocations (trace ?st) (step_id step) + nat (max_retries step - 0 + 1)
        \<and> step_status step' = Step_FAILED
        \<and> failed_steps (execution st') = failed_steps (execution ?st) @ [step_id step]
        \<and> completed_steps (execution st') = completed_steps (execution ?st)
        \<and> errors (execution st') (step_id step) \<noteq> None"
    using assms by (intro attempt_loop_fails[where tn = "tool_name step" and n = "nat (max_retries step - 0)"]) auto
  then show ?thesis by (auto simp: execute_step_def)
qed

theorem execute_step_retry_budget_witness:
  "0 \<le> max_retries email_step \<and> always_raises email_down (tool_name email_step)
   \<and> (\<exists>msg step' st'. execute_step email_down email_step empty_state
          = (Some (WorkflowStepError msg), step', st')
        \<and> invocations (trace st') ''email_report'' = 3
        \<and> map event_kind (trace st') = [None, Some 1, None, Some 2, None]
        \<and> step_status step' = Step_FAILED
        \<and> failed_steps (execution st') = [''email_report''])"
proof -
  have h1: "0 \<le> max_retries email_step" by (simp add: email_step_def new_step_def)
  have h2: "always_raises email_down (tool_name email_step)"
    by (simp add: always_raises_def email_down_def email_step_def new_step_def)
  have m: "nat (max_retries email_step) = 2" "nat (max_retries email_step + 1) = 3"
    "step_id email_step = ''email_report''"
    by (simp_all add: email_step_def new_step_def)
  have rp: "retry_pattern 0 2 = [None, Some 1, None, Some 2, None]"
    by (simp add: retry_pattern_def upt_conv_Cons)
  have e: "trace empty_state = []" "failed_steps (execution empty_state) = []"
    by (simp_all add: empty_state_def new_execution_def)
  show ?thesis
    using h1 h2 execute_step_retry_budget[OF h1 h2, of empty_state]
    by (auto simp: m rp e invocations_def)
qed

section \<open>Running a workflow whose step fails\<close>

lemmas run_defs =
  execute_workflow_def apply_runtime_parameters_def new_step_def new_execution_def
  set_iteration_def step_map_def deps_completed_def has_failed_dep_def execute_step_def
  await_tool_def record_completed_def record_failed_def update_progress_def skip_failed_def
  final_status_def finished_tasks_def ok_reply_def ok_response_def mark_cancelled_def
  execute_sequential_workflow.simps

text \<open>
  C1. The template \<open>quarterly_analysis\<close> in sequential mode, with \<open>send_email\<close> raising on
  every call: the first three steps complete, the email step is retried three times and
  marked failed, and its exception leaves \<open>_execute_sequential_workflow\<close> uncaught.
  \<open>execute_workflow\<close> therefore raises \<open>WorkflowError\<close> to its caller, and the execution
  left in the registry has status \<open>FAILED\<close>, not \<open>PARTIALLY_COMPLETED\<close>.
\<close>

theorem quarterly_email_failure_raises:
  "\<exists>mgr tr ex. execute_workflow fuel email_down sched template_order template_manager
        ''quarterly_analysis'' ''run-1''
      = Some (Inl (WorkflowError ''Workflow execution failed: Step email_report failed: MCP tool send_email failed: smtp down''), mgr, tr)
    \<and> active_workflows mgr ''run-1'' = Some ex
    \<and> status ex = FAILED
    \<and> completed_steps ex = [''fetch_sales_data'', ''analyze_trends'', ''generate_report'']
    \<and> failed_steps ex = [''email_report'']
    \<and> errors ex ''email_report'' = Some ''MCP tool send_email failed: smtp down''"
  by (simp add: run_defs template_manager_def quarterly_analysis_def template_order_def
      email_down_def upto_rec1 Let_def)

text \<open>
  C6. A definition with \<open>timeout_minutes = 1\<close> whose only tool call takes 7200 seconds:
  \<open>execute_workflow\<close> returns the execution with status \<open>COMPLETED\<close> after 7200 seconds
  on the clock. No timeout error is raised and the execution is not marked failed.
\<close>

theorem slow_workflow_not_timed_out:
  "\<exists>ex mgr tr. execute_workflow fuel slow_reply sched first_seen slow_manager ''slow'' ''run-1''
       = Some (Inr ex, mgr, tr)
     \<and> status ex = COMPLETED \<and> elapsed tr = 7200
     \<and> 60 * timeout_minutes slow_definition < int (elapsed tr)"
  by (simp add: run_defs slow_manager_def slow_definition_def first_seen_def
      slow_reply_def upto_rec1 Let_def elapsed_def)

lemma chain_stuck:
  "''a'' \<notin> set (completed_steps (execution st)) \<Longrightarrow>
   execute_parallel_workflow fuel call sched
     [new_step ''a'' ''A'' ''flaky'' [] 0, new_step ''b'' ''B'' ''solid'' [''a''] 0] [''b''] [] st = None"
proof (induction fuel)
  case 0
  show ?case by simp
next
  case (Suc fuel)
  then show ?case
    by (simp add: step_map_def new_step_def deps_completed_def Let_def)
qed

text \<open>
  C2. The definition \<open>chain\<close> (\<open>b\<close> depends on \<open>a\<close>) when the tool of \<open>a\<close> raises on every
  call. In parallel mode \<open>a\<close> is marked failed, \<open>b\<close> never becomes ready, and the loop
  turns forever with \<open>b\<close> remaining and nothing in flight: no amount of fuel lets
  \<open>execute_workflow\<close> return. In sequential mode the call ends by raising, and \<open>b\<close> is in
  neither \<open>completed_steps\<close> nor \<open>failed_steps\<close>.
\<close>

theorem failed_step_leaves_dependents_unresolved:
  "(\<forall>fuel. execute_workflow fuel flaky_down sched first_seen (chain_manager True) ''chain'' ''run-1'' = None)
   \<and> (\<exists>e mgr tr ex. execute_workflow fuel flaky_down sched first_seen (chain_manager False) ''chain'' ''run-1''
          = Some (Inl e, mgr, tr)
        \<and> active_workflows mgr ''run-1'' = Some ex
        \<and> ''b'' \<notin> set (completed_steps ex) \<and> ''b'' \<notin> set (failed_steps ex))"
proof
  show "\<forall>fuel. execute_workflow fuel flaky_down sched first_seen (chain_manager True) ''chain'' ''run-1'' = None"
  proof
    fix fuel
    show "execute_workflow fuel flaky_down sched first_seen (chain_manager True) ''chain'' ''run-1'' = None"
    proof (cases fuel)
      case 0
      then show ?thesis
        by (simp add: execute_workflow_def chain_manager_def chain_definition_def Let_def)
    next
      case (Suc n)
      have stuck: "\<And>st. ''a'' \<notin> set (completed_steps (execution st)) \<Longrightarrow>
          execute_parallel_workflow n flaky_down sched
            [\<lparr>step_id = ''a'', name = ''A'', tool_name = ''flaky'', depends_on = [],
              step_status = Step_PENDING, step_result = None, step_error = None,
              retry_count = 0, max_retries = 0\<rparr>,
             \<lparr>step_id = ''b'', name = ''B'', tool_name = ''solid'', depends_on = [''a''],
              step_status = Step_PENDING, step_result = None, step_error = None,
              retry_count = 0, max_retries = 0\<rparr>] [''b''] [] st = None"
        using chain_stuck[of _ n flaky_down sched] by (simp add: new_step_def)
      show ?thesis unfolding Suc
        by (simp add: run_defs chain_manager_def chain_definition_def first_seen_def
            flaky_down_def upto_rec1 Let_def stuck)
    qed
  qed
next
  show "\<exists>e mgr tr ex. execute_workflow fuel flaky_down sched first_seen (chain_manager False) ''chain'' ''run-1''
          = Some (Inl e, mgr, tr)
        \<and> active_workflows mgr ''run-1'' = Some ex
        \<and> ''b'' \<notin> set (completed_steps ex) \<and> ''b'' \<notin> set (failed_steps ex)"
    by (simp add: run_defs chain_manager_def chain_definition_def first_seen_def
        flaky_down_def upto_rec1 Let_def)
qed

text \<open>
  C5 as stated fails: in parallel mode the definition of the single step \<open>a\<close>, whose tool
  raises, returns without raising with no completed step and one failed step, and the
  status is \<open>PARTIALLY_COMPLETED\<close>, not \<open>FAILED\<close>.
\<close>

theorem single_failure_status:
  "\<exists>ex mgr tr. execute_workflow 3 flaky_down all_at_once first_seen single_manager ''single'' ''run-1''
       = Some (Inr ex, mgr, tr)
     \<and> completed_steps ex = [] \<and> failed_steps ex = [''a''] \<and> status ex = PARTIALLY_COMPLETED"
  by (simp add: run_defs single_manager_def single_definition_def first_seen_def all_at_once_def
      flaky_down_def upto_rec1 Let_def numeral_3_eq_3)

lemma apply_runtime_parameters_ids:
  "map step_id (apply_runtime_parameters sts) = map step_id sts"
  by (simp add: apply_runtime_parameters_def new_step_def comp_def)

text \<open>
  C5, as amended. Whenever \<open>execute_workflow\<close> returns without raising, the status is
  \<open>COMPLETED\<close> if every step id of the definition is in \<open>completed_steps\<close>; otherwise
  \<open>PARTIALLY_COMPLETED\<close> if there is at least one failed step (also when no step
  completed); otherwise \<open>FAILED\<close>.
\<close>

theorem final_status_precedence:
  assumes "execute_workflow fuel call sched slot mgr wid eid = Some (Inr ex, mgr', tr)"
    and "workflow_definitions mgr wid = Some d"
  shows "status ex =
     (if set (map step_id (steps d)) \<subseteq> set (completed_steps ex) then COMPLETED
      else if failed_steps ex \<noteq> [] then PARTIALLY_COMPLETED
      else FAILED)"
proof -
  let ?sts = "apply_runtime_parameters (steps d)"
  have ids: "list_all (\<lambda>step. step_id step \<in> set cs) ?sts \<longleftrightarrow> set (map step_id (steps d)) \<subseteq> set cs" for cs
    using apply_runtime_parameters_ids[of "steps d"]
    by (metis (mono_tags, lifting) list_all_iff image_subset_iff list.set_map)
  let ?st0 = "\<lparr>execution = (new_execution eid wid)\<lparr>status := IN_PROGRESS\<rparr>, trace = []\<rparr>"
  let ?remaining = "set_iteration slot (map step_id ?sts)"
  let ?run = "if parallel_execution d
              then execute_parallel_workflow fuel call sched ?sts ?remaining [] ?st0
              else Some (execute_sequential_workflow call ?sts ?remaining ?st0)"
  obtain r where run: "?run = Some r"
    using assms by (cases ?run) (simp_all add: execute_workflow_def Let_def)
  obtain eo st where r: "r = (eo, st)" by (cases r)
  have ew: "execute_workflow fuel call sched slot mgr wid eid =
      (case ?run of None \<Rightarrow> None
       | Some (None, st) \<Rightarrow>
           (let ex = (execution st)\<lparr>status := final_status ?sts (execution st),
                                      progress_percentage := 100\<rparr>
            in Some (Inr ex, mgr\<lparr>active_workflows := (active_workflows mgr)(eid \<mapsto> ex)\<rparr>, trace st))
       | Some (Some e, st) \<Rightarrow>
           (let ex = (execution st)\<lparr>status := FAILED\<rparr>
            in Some (Inl (reraise wid e),
                     mgr\<lparr>active_workflows := (active_workflows mgr)(eid \<mapsto> ex)\<rparr>, trace st)))"
    using assms(2) unfolding execute_workflow_def Let_def by simp
  have ex: "ex = (execution st)\<lparr>status := final_status ?sts (execution st),
                                  progress_percentage := 100\<rparr>"
  proof (cases eo)
    case None
    show ?thesis using assms(1) unfolding ew run r None by (simp add: Let_def)
  next
    case (Some e)
    show ?thesis using assms(1) unfolding ew run r Some by (simp add: Let_def)
  qed
  show ?thesis unfolding ex by (simp add: final_status_def ids)
qed

theorem final_status_precedence_witness:
  "\<exists>ex mgr' tr d.
     execute_workflow 3 flaky_down all_at_once first_seen single_manager ''single'' ''run-1''
       = Some (Inr ex, mgr', tr)
     \<and> workflow_definitions single_manager ''single'' = Some d
     \<and> status ex =
        (if set (map step_id (steps d)) \<subseteq> set (completed_steps ex) then COMPLETED
         else if failed_steps ex \<noteq> [] then PARTIALLY_COMPLETED
         else FAILED)
     \<and> status ex = PARTIALLY_COMPLETED \<and> completed_steps ex = []"
proof -
  obtain ex mgr' tr where
    r: "execute_workflow 3 flaky_down all_at_once first_seen single_manager ''single'' ''run-1''
       = Some (Inr ex, mgr', tr)" and
    s: "completed_steps ex = []" "status ex = PARTIALLY_COMPLETED"
    by (simp add: run_defs single_manager_def single_definition_def first_seen_def all_at_once_def
      flaky_down_def upto_rec1 Let_def numeral_3_eq_3)
  have d: "workflow_definitions single_manager ''single'' = Some single_definition"
    by (simp add: single_manager_def)
  from final_status_precedence[OF r d] r d s show ?thesis by blast
qed


section \<open>The cycle check and the validation of a definition\<close>

lemma closed_rtrancl:
  assumes "\<forall>b \<in> S. \<forall>c. (b, c) \<in> E \<longrightarrow> c \<in> S" and "(c, x) \<in> E\<^sup>*" and "c \<in> S"
  shows "x \<in> S"
  using assms(2,3,1) by (induction rule: rtrancl_induct) auto

lemma dfs_inv_finish:
  assumes inv: "dfs_inv sts V' (insert sid P)" and nP: "sid \<notin> P" and sV: "sid \<in> V'"
    and succ: "\<forall>c. (sid, c) \<in> edges sts \<longrightarrow> c \<in> V' - insert sid P"
  shows "dfs_inv sts V' P"
proof -
  let ?B = "V' - insert sid P"
  from inv have sub: "insert sid P \<subseteq> V'"
    and closed: "\<forall>b \<in> ?B. \<forall>c. (b, c) \<in> edges sts \<longrightarrow> c \<in> ?B"
    and acyc: "\<forall>b \<in> ?B. (b, b) \<notin> (edges sts)\<^sup>+"
    unfolding dfs_inv_def by blast+
  have self: "(sid, sid) \<notin> (edges sts)\<^sup>+"
  proof
    assume "(sid, sid) \<in> (edges sts)\<^sup>+"
    then obtain c where c: "(sid, c) \<in> edges sts" and r: "(c, sid) \<in> (edges sts)\<^sup>*"
      by (meson tranclD)
    from succ c have "c \<in> ?B" by blast
    from closed_rtrancl[OF closed r this] show False by simp
  qed
  have B: "V' - P = insert sid ?B" using sV nP by blast
  have 1: "P \<subseteq> V'" using sub by blast
  have 2: "\<forall>b \<in> V' - P. \<forall>c. (b, c) \<in> edges sts \<longrightarrow> c \<in> V' - P"
    unfolding B using closed succ by blast
  have 3: "\<forall>b \<in> V' - P. (b, b) \<notin> (edges sts)\<^sup>+"
    unfolding B using acyc self by blast
  show ?thesis unfolding dfs_inv_def using 1 2 3 by blast
qed

lemma node_on_path:
  assumes "sid \<in> P" and "\<forall>g \<in> P. (g, sid) \<in> (edges sts)\<^sup>+"
  shows "dfs_post sts V P {sid} (has_circular_dependency sts sid V P)"
proof -
  from assms have "(sid, sid) \<in> (edges sts)\<^sup>+" by blast
  then have "cyclic sts" unfolding cyclic_def by blast
  moreover have "has_circular_dependency sts sid V P = (True, V, P)"
    using assms(1) by (subst has_circular_dependency.simps) simp
  ultimately show ?thesis by (simp add: dfs_post_def)
qed

lemma node_visited:
  assumes "sid \<notin> P" and "sid \<in> V" and "dfs_inv sts V P"
  shows "dfs_post sts V P {sid} (has_circular_dependency sts sid V P)"
proof -
  have "has_circular_dependency sts sid V P = (False, V, P)"
    using assms(1,2) by (subst has_circular_dependency.simps) simp
  then show ?thesis using assms by (simp add: dfs_post_def)
qed

lemma node_unknown:
  assumes nP: "sid \<notin> P" and nV: "sid \<notin> V" and inv: "dfs_inv sts V P"
    and none: "step_map sts sid = None"
  shows "dfs_post sts V P {sid} (has_circular_dependency sts sid V P)"
proof -
  have noedge: "\<forall>c. (sid, c) \<notin> edges sts" using none by (simp add: edges_def)
  have self: "(sid, sid) \<notin> (edges sts)\<^sup>+" using noedge by (meson tranclD)
  from inv have sub: "P \<subseteq> V"
    and closed: "\<forall>b \<in> V - P. \<forall>c. (b, c) \<in> edges sts \<longrightarrow> c \<in> V - P"
    and acyc: "\<forall>b \<in> V - P. (b, b) \<notin> (edges sts)\<^sup>+"
    unfolding dfs_inv_def by blast+
  have B: "insert sid V - P = insert sid (V - P)" using nP by blast
  have 1: "P \<subseteq> insert sid V" using sub by blast
  have 2: "\<forall>b \<in> insert sid V - P. \<forall>c. (b, c) \<in> edges sts \<longrightarrow> c \<in> insert sid V - P"
    unfolding B using closed noedge by blast
  have 3: "\<forall>b \<in> insert sid V - P. (b, b) \<notin> (edges sts)\<^sup>+"
    unfolding B using acyc self by blast
  have inv': "dfs_inv sts (insert sid V) P" unfolding dfs_inv_def using 1 2 3 by blast
  have P: "insert sid P - {sid} = P" using nP by blast
  have "has_circular_dependency sts sid V P = (False, insert sid V, P)"
    using nP nV none by (subst has_circular_dependency.simps) (simp add: P)
  then show ?thesis using inv' nP by (auto simp: dfs_post_def)
qed

lemma node_expand:
  assumes nP: "sid \<notin> P" and nV: "sid \<notin> V" and inv: "dfs_inv sts V P"
    and some: "step_map sts sid = Some step"
    and reach: "\<forall>g \<in> P. (g, sid) \<in> (edges sts)\<^sup>+"
    and IH: "dfs_inv sts (insert sid V) (insert sid P)
       \<longrightarrow> (\<forall>g \<in> insert sid P. \<forall>d \<in> set (depends_on step). (g, d) \<in> (edges sts)\<^sup>+)
       \<longrightarrow> dfs_post sts (insert sid V) (insert sid P) (set (depends_on step))
             (check_dependencies sts (depends_on step) (insert sid V) (insert sid P))"
  shows "dfs_post sts V P {sid} (has_circular_dependency sts sid V P)"
proof -
  let ?r = "check_dependencies sts (depends_on step) (insert sid V) (insert sid P)"
  have succ_eq: "\<And>c. (sid, c) \<in> edges sts \<longleftrightarrow> c \<in> set (depends_on step)"
    using some by (simp add: edges_def)
  from inv have sub: "P \<subseteq> V"
    and closed: "\<forall>b \<in> V - P. \<forall>c. (b, c) \<in> edges sts \<longrightarrow> c \<in> V - P"
    and acyc: "\<forall>b \<in> V - P. (b, b) \<notin> (edges sts)\<^sup>+"
    unfolding dfs_inv_def by blast+
  have B: "insert sid V - insert sid P = V - P" using nV by blast
  have pre1: "dfs_inv sts (insert sid V) (insert sid P)"
    unfolding dfs_inv_def B using sub closed acyc by blast
  have pre2: "\<forall>g \<in> insert sid P. \<forall>d \<in> set (depends_on step). (g, d) \<in> (edges sts)\<^sup>+"
  proof (intro ballI)
    fix g d assume g: "g \<in> insert sid P" and d: "d \<in> set (depends_on step)"
    have e: "(sid, d) \<in> edges sts" using d succ_eq by simp
    show "(g, d) \<in> (edges sts)\<^sup>+"
    proof (cases "g = sid")
      case True
      then show ?thesis using e by blast
    next
      case False
      with g reach have "(g, sid) \<in> (edges sts)\<^sup>+" by blast
      then show ?thesis using e by (rule trancl_into_trancl)
    qed
  qed
  have post: "dfs_post sts (insert sid V) (insert sid P) (set (depends_on step)) ?r"
    by (rule mp[OF mp[OF IH pre1] pre2])
  have unfold: "has_circular_dependency sts sid V P =
      (if fst ?r then (True, fst (snd ?r), snd (snd ?r))
       else (False, fst (snd ?r), snd (snd ?r) - {sid}))"
    using nP nV some
    by (subst has_circular_dependency.simps) (simp split: prod.splits bool.splits)
  show ?thesis
  proof (cases "fst ?r")
    case True
    with post have "cyclic sts" by (simp add: dfs_post_def)
    then show ?thesis using True unfold by (simp add: dfs_post_def)
  next
    case False
    with post have P': "snd (snd ?r) = insert sid P" and sV: "insert sid V \<subseteq> fst (snd ?r)"
      and deps: "set (depends_on step) \<subseteq> fst (snd ?r) - insert sid P"
      and inv1: "dfs_inv sts (fst (snd ?r)) (insert sid P)"
      by (simp_all add: dfs_post_def)
    have s1: "sid \<in> fst (snd ?r)" using sV by blast
    have s2: "\<forall>c. (sid, c) \<in> edges sts \<longrightarrow> c \<in> fst (snd ?r) - insert sid P"
      using deps succ_eq by blast
    have inv2: "dfs_inv sts (fst (snd ?r)) P" by (rule dfs_inv_finish[OF inv1 nP s1 s2])
    have P2: "snd (snd ?r) - {sid} = P" using P' nP by blast
    have V2: "V \<subseteq> fst (snd ?r)" using sV by blast
    show ?thesis using False unfold inv2 P2 V2 s1 nP by (simp add: dfs_post_def)
  qed
qed

lemma list_step:
  assumes inv: "dfs_inv sts V P"
    and reach: "\<forall>g \<in> P. \<forall>d \<in> set (dep # deps). (g, d) \<in> (edges sts)\<^sup>+"
    and IH1: "dfs_inv sts V P \<longrightarrow> (\<forall>g \<in> P. (g, dep) \<in> (edges sts)\<^sup>+)
       \<longrightarrow> dfs_post sts V P {dep} (has_circular_dependency sts dep V P)"
    and IH2: "\<And>x y xa ya. (x, y) = has_circular_dependency sts dep V P \<Longrightarrow> x = False
       \<Longrightarrow> (xa, ya) = y
       \<Longrightarrow> dfs_inv sts xa ya \<longrightarrow> (\<forall>g \<in> ya. \<forall>d \<in> set deps. (g, d) \<in> (edges sts)\<^sup>+)
           \<longrightarrow> dfs_post sts xa ya (set deps) (check_dependencies sts deps xa ya)"
  shows "dfs_post sts V P (set (dep # deps)) (check_dependencies sts (dep # deps) V P)"
proof -
  let ?r = "has_circular_dependency sts dep V P"
  have r1: "\<forall>g \<in> P. (g, dep) \<in> (edges sts)\<^sup>+" using reach by simp
  have r2: "\<forall>g \<in> P. \<forall>d \<in> set deps. (g, d) \<in> (edges sts)\<^sup>+" using reach by simp
  have post1: "dfs_post sts V P {dep} ?r" by (rule mp[OF mp[OF IH1 inv] r1])
  have unfold: "check_dependencies sts (dep # deps) V P =
      (if fst ?r then (True, fst (snd ?r), snd (snd ?r))
       else check_dependencies sts deps (fst (snd ?r)) (snd (snd ?r)))"
    by (simp split: prod.splits bool.splits)
  show ?thesis
  proof (cases "fst ?r")
    case True
    with post1 have "cyclic sts" by (simp add: dfs_post_def)
    then show ?thesis using True unfold by (simp add: dfs_post_def)
  next
    case False
    with post1 have P1: "snd (snd ?r) = P" and V1: "V \<subseteq> fst (snd ?r)"
      and d1: "dep \<in> fst (snd ?r) - P" and inv1: "dfs_inv sts (fst (snd ?r)) P"
      by (simp_all add: dfs_post_def)
    let ?r2 = "check_dependencies sts deps (fst (snd ?r)) P"
    have e1: "(fst ?r, snd ?r) = ?r" by simp
    have e2: "fst ?r = False" using False by simp
    have e3: "(fst (snd ?r), P) = snd ?r" using P1 by (simp add: prod_eq_iff)
    have post2: "dfs_post sts (fst (snd ?r)) P (set deps) ?r2"
      by (rule mp[OF mp[OF IH2[OF e1 e2 e3] inv1] r2])
    have eq: "check_dependencies sts (dep # deps) V P = ?r2"
      using False P1 by (simp only: unfold if_False)
    show ?thesis
    proof (cases "fst ?r2")
      case True
      with post2 have "cyclic sts" by (simp add: dfs_post_def)
      then show ?thesis using True unfolding eq by (simp add: dfs_post_def)
    next
      case F2: False
      with post2 have a: "snd (snd ?r2) = P" and b: "fst (snd ?r) \<subseteq> fst (snd ?r2)"
        and c: "set deps \<subseteq> fst (snd ?r2) - P" and d: "dfs_inv sts (fst (snd ?r2)) P"
        by (simp_all add: dfs_post_def)
      have "V \<subseteq> fst (snd ?r2)" using V1 b by blast
      moreover have "set (dep # deps) \<subseteq> fst (snd ?r2) - P" using d1 b c by auto
      ultimately show ?thesis using F2 a d unfolding eq by (simp add: dfs_post_def)
    qed
  qed
qed

lemma dfs_correct:
  "dfs_inv sts V P \<longrightarrow> (\<forall>g \<in> P. (g, sid) \<in> (edges sts)\<^sup>+)
     \<longrightarrow> dfs_post sts V P {sid} (has_circular_dependency sts sid V P)"
  "dfs_inv sts V P \<longrightarrow> (\<forall>g \<in> P. \<forall>d \<in> set ds. (g, d) \<in> (edges sts)\<^sup>+)
     \<longrightarrow> dfs_post sts V P (set ds) (check_dependencies sts ds V P)"
proof (induction sts sid V P and sts ds V P rule: has_circular_dependency_check_dependencies.induct)
  case (1 sts sid V P)
  show ?case
  proof (intro impI)
    assume inv: "dfs_inv sts V P" and reach: "\<forall>g \<in> P. (g, sid) \<in> (edges sts)\<^sup>+"
    show "dfs_post sts V P {sid} (has_circular_dependency sts sid V P)"
    proof (cases "sid \<in> P")
      case True
      then show ?thesis using reach by (rule node_on_path)
    next
      case nP: False
      show ?thesis
      proof (cases "sid \<in> V")
        case True
        show ?thesis by (rule node_visited[OF nP True inv])
      next
        case nV: False
        show ?thesis
        proof (cases "step_map sts sid")
          case None
          show ?thesis by (rule node_unknown[OF nP nV inv None])
        next
          case (Some step)
          show ?thesis by (rule node_expand[OF nP nV inv Some reach 1[OF nP nV Some]])
        qed
      qed
    qed
  qed
next
  case (2 sts V P)
  show ?case by (simp add: dfs_post_def)
next
  case (3 sts dep deps V P)
  show ?case
  proof (intro impI)
    assume inv: "dfs_inv sts V P"
      and reach: "\<forall>g \<in> P. \<forall>d \<in> set (dep # deps). (g, d) \<in> (edges sts)\<^sup>+"
    show "dfs_post sts V P (set (dep # deps)) (check_dependencies sts (dep # deps) V P)"
      by (rule list_step[OF inv reach 3(1) 3(2)])
  qed
qed

lemma check_roots_Cons:
  "check_roots sts (step # rest) V =
     (if step_id step \<in> V then check_roots sts rest V
      else if fst (has_circular_dependency sts (step_id step) V {}) then True
      else check_roots sts rest (fst (snd (has_circular_dependency sts (step_id step) V {}))))"
  by (cases "has_circular_dependency sts (step_id step) V {}") (simp split: bool.splits)

declare check_roots.simps(2) [simp del]

lemma check_roots_correct:
  "dfs_inv sts V {} \<Longrightarrow>
     (check_roots sts rest V \<longrightarrow> cyclic sts)
     \<and> (\<not> check_roots sts rest V
          \<longrightarrow> (\<exists>V'. V \<subseteq> V' \<and> step_id ` set rest \<subseteq> V' \<and> dfs_inv sts V' {}))"
proof (induction rest arbitrary: V)
  case Nil
  have "V \<subseteq> V \<and> step_id ` set [] \<subseteq> V \<and> dfs_inv sts V {}" using Nil by simp
  then show ?case by (simp del: subset_refl) blast
next
  case (Cons step rest)
  let ?r = "has_circular_dependency sts (step_id step) V {}"
  show ?case
  proof (cases "step_id step \<in> V")
    case True
    then have eq: "check_roots sts (step # rest) V = check_roots sts rest V"
      by (simp add: check_roots_Cons)
    from Cons.IH[OF Cons.prems] have
      a: "check_roots sts rest V \<longrightarrow> cyclic sts" and
      b: "\<not> check_roots sts rest V
          \<longrightarrow> (\<exists>V'. V \<subseteq> V' \<and> step_id ` set rest \<subseteq> V' \<and> dfs_inv sts V' {})" by blast+
    have "\<not> check_roots sts rest V
          \<longrightarrow> (\<exists>V'. V \<subseteq> V' \<and> step_id ` set (step # rest) \<subseteq> V' \<and> dfs_inv sts V' {})"
    proof
      assume "\<not> check_roots sts rest V"
      with b obtain V' where v: "V \<subseteq> V'" "step_id ` set rest \<subseteq> V'" "dfs_inv sts V' {}" by blast
      have "step_id step \<in> V'" using True v(1) by blast
      then have "step_id ` set (step # rest) \<subseteq> V'" using v(2) by simp
      then show "\<exists>V'. V \<subseteq> V' \<and> step_id ` set (step # rest) \<subseteq> V' \<and> dfs_inv sts V' {}"
        using v by blast
    qed
    then show ?thesis unfolding eq using a by blast
  next
    case False
    have post: "dfs_post sts V {} {step_id step} ?r"
      using dfs_correct(1)[of sts V "{}" "step_id step"] Cons.prems by simp
    show ?thesis
    proof (cases "fst ?r")
      case True
      with post have "cyclic sts" by (simp add: dfs_post_def)
      moreover have "check_roots sts (step # rest) V" using False True by (simp add: check_roots_Cons)
      ultimately show ?thesis by blast
    next
      case F: False
      with post have V1: "V \<subseteq> fst (snd ?r)" and s: "step_id step \<in> fst (snd ?r)"
        and inv1: "dfs_inv sts (fst (snd ?r)) {}"
        by (simp_all add: dfs_post_def)
      have eq: "check_roots sts (step # rest) V = check_roots sts rest (fst (snd ?r))"
        using F False by (simp add: check_roots_Cons)
      from Cons.IH[OF inv1] have
        a: "check_roots sts rest (fst (snd ?r)) \<longrightarrow> cyclic sts" and
        b: "\<not> check_roots sts rest (fst (snd ?r))
          \<longrightarrow> (\<exists>V'. fst (snd ?r) \<subseteq> V' \<and> step_id ` set rest \<subseteq> V' \<and> dfs_inv sts V' {})"
        by blast+
      have "\<not> check_roots sts rest (fst (snd ?r))
          \<longrightarrow> (\<exists>V'. V \<subseteq> V' \<and> step_id ` set (step # rest) \<subseteq> V' \<and> dfs_inv sts V' {})"
      proof
        assume "\<not> check_roots sts rest (fst (snd ?r))"
        with b obtain V' where v: "fst (snd ?r) \<subseteq> V'" "step_id ` set rest \<subseteq> V'"
          "dfs_inv sts V' {}" by blast
        have "V \<subseteq> V'" using V1 v(1) by blast
        moreover have "step_id step \<in> V'" using s v(1) by blast
        then have "step_id ` set (step # rest) \<subseteq> V'" using v(2) by simp
        ultimately show "\<exists>V'. V \<subseteq> V' \<and> step_id ` set (step # rest) \<subseteq> V' \<and> dfs_inv sts V' {}"
          using v(3) by blast
      qed
      then show ?thesis unfolding eq using a by blast
    qed
  qed
qed

theorem check_roots_iff_cyclic: "check_roots sts sts {} = cyclic sts"
proof -
  have inv0: "dfs_inv sts {} {}" by (simp add: dfs_inv_def)
  from check_roots_correct[OF inv0, of sts] have
    a: "check_roots sts sts {} \<longrightarrow> cyclic sts" and
    b: "\<not> check_roots sts sts {}
          \<longrightarrow> (\<exists>V'. {} \<subseteq> V' \<and> step_id ` set sts \<subseteq> V' \<and> dfs_inv sts V' {})" by blast+
  have "\<not> cyclic sts" if n: "\<not> check_roots sts sts {}"
  proof
    from b n obtain V' where ids: "step_id ` set sts \<subseteq> V'" and inv: "dfs_inv sts V' {}" by blast
    assume "cyclic sts"
    then obtain x where x: "(x, x) \<in> (edges sts)\<^sup>+" unfolding cyclic_def by blast
    then obtain c where "(x, c) \<in> edges sts" by (meson tranclD)
    then obtain s where "step_map sts x = Some s" unfolding edges_def by blast
    then have "x \<in> set (map step_id sts)" by (rule step_map_dom)
    then have "x \<in> V'" using ids by auto
    moreover from inv have "\<forall>b \<in> V' - {}. (b, b) \<notin> (edges sts)\<^sup>+" unfolding dfs_inv_def by blast
    ultimately show False using x by blast
  qed
  with a show ?thesis by blast
qed


lemma step_map_distinct:
  assumes "distinct (map step_id sts)"
  shows "step_map sts a = Some s \<longleftrightarrow> s \<in> set sts \<and> step_id s = a"
proof -
  have d: "distinct (map fst (rev (map (\<lambda>s. (step_id s, s)) sts)))"
    using assms by (simp add: rev_map[symmetric] comp_def)
  show ?thesis unfolding step_map_def using map_of_eq_Some_iff[OF d] by auto
qed

lemma edges_depends_rel:
  assumes "distinct (map step_id sts)"
  shows "edges sts = depends_rel sts"
  unfolding edges_def depends_rel_def using step_map_distinct[OF assms] by auto

lemma duplicate_check: "card (set (map step_id sts)) \<noteq> length sts \<longleftrightarrow> shares_step_id sts"
proof -
  have "card (set (map step_id sts)) = length sts \<longleftrightarrow> distinct (map step_id sts)"
    using card_distinct[of "map step_id sts"] distinct_card[of "map step_id sts"] by auto
  moreover have "distinct (map step_id sts) \<longleftrightarrow> \<not> shares_step_id sts"
  proof
    assume d: "distinct (map step_id sts)"
    show "\<not> shares_step_id sts"
    proof
      assume "shares_step_id sts"
      then obtain i j where ij: "i < j" "j < length sts" "step_id (sts ! i) = step_id (sts ! j)"
        unfolding shares_step_id_def by blast
      then have "map step_id sts ! i = map step_id sts ! j" "i < length (map step_id sts)"
        "j < length (map step_id sts)" "i \<noteq> j" by simp_all
      with d show False unfolding distinct_conv_nth by blast
    qed
  next
    assume n: "\<not> shares_step_id sts"
    show "distinct (map step_id sts)"
    proof (subst distinct_conv_nth, intro allI impI)
      fix i j assume a: "i < length (map step_id sts)" "j < length (map step_id sts)" "i \<noteq> j"
      show "map step_id sts ! i \<noteq> map step_id sts ! j"
      proof
        assume e: "map step_id sts ! i = map step_id sts ! j"
        then have e': "step_id (sts ! i) = step_id (sts ! j)" using a by simp
        from a(3) consider "i < j" | "j < i" by linarith
        then show False
        proof cases
          case 1
          with a e' n show False unfolding shares_step_id_def by auto
        next
          case 2
          with a e' n show False unfolding shares_step_id_def by (metis length_map)
        qed
      qed
    qed
  qed
  ultimately show ?thesis by blast
qed

lemma missing_dependency_None: "missing_dependency sts = None \<longleftrightarrow> \<not> dangling_dependency sts"
proof
  assume n: "missing_dependency sts = None"
  show "\<not> dangling_dependency sts"
  proof
    assume "dangling_dependency sts"
    then obtain s dep where sd: "s \<in> set sts" "dep \<in> set (depends_on s)" "dep \<notin> step_id ` set sts"
      unfolding dangling_dependency_def by blast
    then have "(step_id s, dep) \<in> set (concat (map (\<lambda>s. map (Pair (step_id s)) (depends_on s)) sts))"
      by auto
    with n sd(3) show False unfolding missing_dependency_def find_None_iff by fastforce
  qed
next
  assume n: "\<not> dangling_dependency sts"
  show "missing_dependency sts = None"
    unfolding missing_dependency_def find_None_iff
  proof
    assume "\<exists>x. x \<in> set (concat (map (\<lambda>s. map (Pair (step_id s)) (depends_on s)) sts))
        \<and> (case x of (sid, dep) \<Rightarrow> dep \<notin> set (map step_id sts))"
    then obtain s dep where "s \<in> set sts" "dep \<in> set (depends_on s)" "dep \<notin> set (map step_id sts)"
      by auto
    with n show False unfolding dangling_dependency_def by auto
  qed
qed

lemma missing_dependency_Some:
  "missing_dependency sts = Some p \<Longrightarrow> dangling_dependency sts"
  using missing_dependency_None[of sts] by auto

theorem validate_iff:
  "validate_workflow_definition sts = None
     \<longleftrightarrow> \<not> (shares_step_id sts \<or> dangling_dependency sts \<or> dependency_cycle sts)"
proof (cases "shares_step_id sts")
  case True
  then show ?thesis using duplicate_check[of sts] by (simp add: validate_workflow_definition_def)
next
  case ns: False
  then have card: "card (set (map step_id sts)) = length sts" using duplicate_check[of sts] by blast
  then have dist: "distinct (map step_id sts)" by (intro card_distinct) simp
  show ?thesis
  proof (cases "missing_dependency sts")
    case (Some p)
    then have "dangling_dependency sts" by (rule missing_dependency_Some)
    then show ?thesis using Some card
      by (simp add: validate_workflow_definition_def split: prod.splits)
  next
    case None
    then have nd: "\<not> dangling_dependency sts" using missing_dependency_None by blast
    have "cyclic sts = dependency_cycle sts"
      unfolding cyclic_def dependency_cycle_def edges_depends_rel[OF dist] ..
    then show ?thesis using None card ns nd
      by (simp add: validate_workflow_definition_def check_circular_dependencies_def
          check_roots_iff_cyclic)
  qed
qed

lemma validate_error_kind:
  "validate_workflow_definition sts = Some e \<Longrightarrow> is_definition_error e"
  by (auto simp: validate_workflow_definition_def check_circular_dependencies_def
      is_definition_error_def split: if_splits option.splits prod.splits)

text \<open>
  C7, as amended. \<open>create_workflow\<close> raises a definition error (\<open>WorkflowError\<close> or
  \<open>WorkflowDependencyError\<close>) if and only if two steps share a step id, a dependency
  names a step id that is not in the definition, or the dependency graph has a cycle;
  it accepts the definition if and only if none of the three holds and
  \<open>timeout_minutes\<close> lies in 1..480.
\<close>

theorem create_workflow_validation:
  "((\<exists>e. create_workflow mgr wid nm descr sds timeout par = Inl e \<and> is_definition_error e)
      \<longleftrightarrow> shares_step_id (map step_of_data sds) \<or> dangling_dependency (map step_of_data sds)
          \<or> dependency_cycle (map step_of_data sds))
   \<and> ((\<exists>workflow mgr'. create_workflow mgr wid nm descr sds timeout par = Inr (workflow, mgr'))
      \<longleftrightarrow> \<not> (shares_step_id (map step_of_data sds) \<or> dangling_dependency (map step_of_data sds)
             \<or> dependency_cycle (map step_of_data sds))
          \<and> 1 \<le> timeout \<and> timeout \<le> 480)"
proof (cases "validate_workflow_definition (map step_of_data sds)")
  case None
  then have ok: "\<not> (shares_step_id (map step_of_data sds) \<or> dangling_dependency (map step_of_data sds)
             \<or> dependency_cycle (map step_of_data sds))" using validate_iff by blast
  show ?thesis using None ok
    by (auto simp: create_workflow_def Let_def is_definition_error_def)
next
  case (Some e)
  then have bad: "shares_step_id (map step_of_data sds) \<or> dangling_dependency (map step_of_data sds)
             \<or> dependency_cycle (map step_of_data sds)" using validate_iff[of "map step_of_data sds"] by auto
  have "is_definition_error e" using Some by (rule validate_error_kind)
  then show ?thesis using Some bad by (auto simp: create_workflow_def Let_def)
qed

text \<open>
  C7 as stated fails: the definition with no steps has none of the three defects, and
  with \<open>timeout_minutes = 0\<close> it is not accepted.
\<close>

theorem create_workflow_timeout_counterexample:
  "\<not> (shares_step_id (map step_of_data []) \<or> dangling_dependency (map step_of_data [])
      \<or> dependency_cycle (map step_of_data []))
   \<and> create_workflow empty_manager ''w'' ''n'' ''d'' [] 0 False = Inl (ValidationError ''timeout_minutes'')"
proof -
  have "validate_workflow_definition [] = None"
    by (simp add: validate_workflow_definition_def missing_dependency_def check_circular_dependencies_def)
  then show ?thesis using validate_iff[of "[]"] by (simp add: create_workflow_def)
qed

section \<open>The remote tool client on an authentication failure\<close>

text \<open>
  C10. An initialized client with the default retry count 3, and a server that answers
  every request with HTTP 401: \<open>call_tool\<close> posts four requests, sleeping 1, 2 and 4
  seconds between them, and then raises \<open>MCPToolError\<close> ("Unexpected error calling ...").
  The \<open>MCPAuthError\<close> it raises for a 401 stands inside the \<open>try\<close> whose
  \<open>except Exception\<close> clause retries, so the authentication failure is neither raised
  immediately nor left unretried.
\<close>

theorem auth_failure_is_retried:
  "\<exists>c. call_tool unauthorized fresh_client ''send_email'' None
      = (Inl (MCPToolError ''Unexpected error calling send_email: Authentication failed: Invalid GitHub OAuth token for tool send_email''), c)
    \<and> requests c = 4 \<and> backoff c = [1, 2, 4]"
  by (simp add: call_tool_def fresh_client_def unauthorized_def upto_rec1 attempt_once_def
      handle_response_def except_exception_def sleep_def bump_failed_def Let_def)

section \<open>Cancellation\<close>

lemma forget_fields [simp]:
  "trace (forget_status st) = trace st"
  "completed_steps (execution (forget_status st)) = completed_steps (execution st)"
  "failed_steps (execution (forget_status st)) = failed_steps (execution st)"
  "errors (execution (forget_status st)) = errors (execution st)"
  "results (execution (forget_status st)) = results (execution st)"
  by (simp_all add: forget_status_def)

lemma forget_ready [simp]:
  "deps_completed (execution (forget_status st)) = deps_completed (execution st)"
  "has_failed_dep (execution (forget_status st)) = has_failed_dep (execution st)"
  by (auto simp: deps_completed_def has_failed_dep_def fun_eq_iff)

lemma forget_commutes [simp]:
  "forget_status (skip_failed fd st) = skip_failed fd (forget_status st)"
  "forget_status (update_progress n st) = update_progress n (forget_status st)"
  by (simp_all add: forget_status_def skip_failed_def update_progress_def)

lemma await_tool_ignore_cancel:
  "await_tool (ignore_cancel call) step (forget_status st)
     = (fst (await_tool call step st), forget_status (snd (await_tool call step st)))"
  by (simp add: await_tool_def ignore_cancel_def forget_status_def mark_cancelled_def Let_def)

lemma attempt_loop_ignore_cancel:
  "attempt_loop (ignore_cancel call) attempts step (forget_status st)
     = (case attempt_loop call attempts step st of (e, step', st1) \<Rightarrow> (e, step', forget_status st1))"
proof (induction attempts arbitrary: step st)
  case Nil
  show ?case by simp
next
  case (Cons attempt rest)
  obtain r st1 where aw: "await_tool call step st = (r, st1)" by (cases "await_tool call step st")
  then have aw': "await_tool (ignore_cancel call) step (forget_status st) = (r, forget_status st1)"
    by (simp add: await_tool_ignore_cancel)
  have push: "\<And>n. (forget_status st1)\<lparr>trace := trace st1 @ [Slept n]\<rparr>
      = forget_status (st1\<lparr>trace := trace st1 @ [Slept n]\<rparr>)"
    by (simp add: forget_status_def)
  show ?case
  proof (cases "call_mcp_tool (tool_name step) r")
    case (Inr result)
    then show ?thesis using aw aw'
      by (simp add: forget_status_def record_completed_def)
  next
    case (Inl e)
    show ?thesis
    proof (cases "attempt < max_retries step")
      case True
      then show ?thesis using aw aw' Inl Cons.IH by (simp add: Let_def push)
    next
      case False
      then show ?thesis using aw aw' Inl
        by (simp add: Let_def forget_status_def record_failed_def)
    qed
  qed
qed

lemma execute_step_ignore_cancel:
  "execute_step (ignore_cancel call) step (forget_status st)
     = (case execute_step call step st of (e, step', st1) \<Rightarrow> (e, step', forget_status st1))"
proof -
  have "(forget_status st)\<lparr>execution := (execution (forget_status st))\<lparr>current_step := Some (step_id step)\<rparr>\<rparr>
      = forget_status (st\<lparr>execution := (execution st)\<lparr>current_step := Some (step_id step)\<rparr>\<rparr>)"
    by (simp add: forget_status_def)
  then show ?thesis unfolding execute_step_def by (simp add: attempt_loop_ignore_cancel)
qed

lemma sequential_ignore_cancel:
  "execute_sequential_workflow (ignore_cancel call) sts remaining (forget_status st)
     = (case execute_sequential_workflow call sts remaining st of (e, st1) \<Rightarrow> (e, forget_status st1))"
proof (induction call sts remaining st rule: execute_sequential_workflow.induct)
  case (1 call sts remaining st)
  show ?case
  proof (cases "remaining = []")
    case True
    then show ?thesis by (simp add: execute_sequential_workflow.simps)
  next
    case ne: False
    show ?thesis
    proof (cases "those (map (step_map sts) remaining)")
      case None
      then show ?thesis using ne
        by (simp add: execute_sequential_workflow.simps[of _ sts remaining])
    next
      case (Some rem_steps)
      show ?thesis
      proof (cases "filter (deps_completed (execution st)) rem_steps")
        case Nil
        let ?fd = "map step_id (filter (has_failed_dep (execution st)) rem_steps)"
        show ?thesis
        proof (cases "?fd = []")
          case True
          then show ?thesis using ne Some Nil
            by (simp add: execute_sequential_workflow.simps[of _ sts remaining] Let_def)
        next
          case False
          have IH: "execute_sequential_workflow (ignore_cancel call) sts
                (filter (\<lambda>sid. sid \<notin> set ?fd) remaining) (forget_status (skip_failed ?fd st))
              = (case execute_sequential_workflow call sts
                        (filter (\<lambda>sid. sid \<notin> set ?fd) remaining) (skip_failed ?fd st) of
                   (e, st1) \<Rightarrow> (e, forget_status st1))"
            using 1(1)[OF ne Some Nil refl] False by simp
          show ?thesis
            using ne Some Nil False IH
            by (simp add: execute_sequential_workflow.simps[of _ sts remaining] Let_def)
        qed
      next
        case (Cons step ready_rest)
        obtain e step' st1 where es: "execute_step call step st = (e, step', st1)"
          by (cases "execute_step call step st")
        then have es': "execute_step (ignore_cancel call) step (forget_status st)
            = (e, step', forget_status st1)"
          by (simp add: execute_step_ignore_cancel)
        show ?thesis
        proof (cases e)
          case (Some err)
          then show ?thesis using ne \<open>those (map (step_map sts) remaining) = Some rem_steps\<close> Cons es es'
            by (simp add: execute_sequential_workflow.simps[of _ sts remaining])
        next
          case None
          show ?thesis
          proof (cases "length sts = 0")
            case True
            then show ?thesis
              using ne \<open>those (map (step_map sts) remaining) = Some rem_steps\<close> Cons es es' None
              by (simp add: execute_sequential_workflow.simps[of _ "[]" remaining])
          next
            case False
            have IH: "execute_sequential_workflow (ignore_cancel call) sts
                  (remove1 (step_id step) remaining) (forget_status (update_progress (length sts) st1))
                = (case execute_sequential_workflow call sts
                          (remove1 (step_id step) remaining) (update_progress (length sts) st1) of
                     (e, st2) \<Rightarrow> (e, forget_status st2))"
              using 1(2)[OF ne \<open>those (map (step_map sts) remaining) = Some rem_steps\<close> Cons
                  es[symmetric] None refl] False by simp
            show ?thesis
              using ne \<open>those (map (step_map sts) remaining) = Some rem_steps\<close> Cons es es' None False IH
              by (simp add: execute_sequential_workflow.simps[of _ sts remaining])
          qed
        qed
      qed
    qed
  qed
qed


lemma run_tasks_ignore_cancel:
  "run_tasks (ignore_cancel call) tasks (forget_status st) = forget_status (run_tasks call tasks st)"
proof (induction tasks arbitrary: st)
  case Nil
  show ?case by simp
next
  case (Cons step rest)
  obtain e step' st1 where es: "execute_step call step st = (e, step', st1)"
    by (cases "execute_step call step st")
  then have "execute_step (ignore_cancel call) step (forget_status st) = (e, step', forget_status st1)"
    by (simp add: execute_step_ignore_cancel)
  then show ?case using es Cons.IH by simp
qed

lemma finished_tasks_forget [simp]:
  "finished_tasks sched (forget_status st) running = finished_tasks sched st running"
  by (simp add: finished_tasks_def)

lemma parallel_ignore_cancel:
  "execute_parallel_workflow fuel (ignore_cancel call) sched sts remaining running (forget_status st)
     = map_option (\<lambda>(e, st1). (e, forget_status st1))
         (execute_parallel_workflow fuel call sched sts remaining running st)"
proof (induction fuel arbitrary: remaining running st)
  case 0
  show ?case by simp
next
  case (Suc fuel)
  show ?case
  proof (cases "remaining = [] \<and> running = []")
    case True
    then show ?thesis by simp
  next
    case ne: False
    show ?thesis
    proof (cases "those (map (step_map sts) remaining)")
      case None
      then show ?thesis using ne by simp
    next
      case (Some rem_steps)
      let ?ready = "filter (deps_completed (execution st)) rem_steps"
      let ?running1 = "running @ ?ready"
      let ?remaining1 = "filter (\<lambda>sid. sid \<notin> set (map step_id ?ready)) remaining"
      let ?done = "finished_tasks sched st ?running1"
      let ?st1 = "run_tasks call ?done st"
      let ?running2 = "filter (\<lambda>s. step_id s \<notin> set (map step_id ?done)) ?running1"
      show ?thesis
      proof (cases "?running1 = []")
        case True
        have l: "execute_parallel_workflow (Suc fuel) (ignore_cancel call) sched sts remaining running
              (forget_status st)
            = execute_parallel_workflow fuel (ignore_cancel call) sched sts ?remaining1 ?running1
                (forget_status st)"
          using ne Some True by (simp add: Let_def)
        have r: "execute_parallel_workflow (Suc fuel) call sched sts remaining running st
            = execute_parallel_workflow fuel call sched sts ?remaining1 ?running1 st"
          using ne Some True by (simp add: Let_def)
        show ?thesis unfolding l r by (rule Suc.IH)
      next
        case False
        show ?thesis
        proof (cases "length sts = 0")
          case True
          have l: "execute_parallel_workflow (Suc fuel) (ignore_cancel call) sched sts remaining running
                (forget_status st)
              = Some (Some (ZeroDivisionError ''division by zero''), forget_status ?st1)"
            using ne Some False True by (auto simp: Let_def run_tasks_ignore_cancel)
          have r: "execute_parallel_workflow (Suc fuel) call sched sts remaining running st
              = Some (Some (ZeroDivisionError ''division by zero''), ?st1)"
            using ne Some False True by (auto simp: Let_def)
          show ?thesis unfolding l r by simp
        next
          case nz: False
          have l: "execute_parallel_workflow (Suc fuel) (ignore_cancel call) sched sts remaining running
                (forget_status st)
              = execute_parallel_workflow fuel (ignore_cancel call) sched sts ?remaining1 ?running2
                  (forget_status (update_progress (length sts) ?st1))"
            using ne Some False nz by (auto simp: Let_def run_tasks_ignore_cancel)
          have r: "execute_parallel_workflow (Suc fuel) call sched sts remaining running st
              = execute_parallel_workflow fuel call sched sts ?remaining1 ?running2
                  (update_progress (length sts) ?st1)"
            using ne Some False nz by (auto simp: Let_def)
          show ?thesis unfolding l r by (rule Suc.IH)
        qed
      qed
    qed
  qed
qed

text \<open>
  No cancellation request changes what \<open>execute_workflow\<close> does: with the requests taken
  out of the invoker the call invokes the same tools and gives the same result.
\<close>

lemma workflow_ignores_cancel:
  "execute_workflow fuel (ignore_cancel call) sched slot mgr wid eid
     = execute_workflow fuel call sched slot mgr wid eid"
proof (cases "workflow_definitions mgr wid")
  case None
  then show ?thesis by (simp add: execute_workflow_def)
next
  case (Some d)
  let ?sts = "apply_runtime_parameters (steps d)"
  let ?st0 = "\<lparr>execution = (new_execution eid wid)\<lparr>status := IN_PROGRESS\<rparr>, trace = []\<rparr>"
  let ?remaining = "set_iteration slot (map step_id ?sts)"
  have st0: "forget_status ?st0 = ?st0" by (simp add: forget_status_def)
  have fin: "\<And>st. (execution (forget_status st))\<lparr>status := final_status ?sts (execution (forget_status st)),
                                       progress_percentage := 100\<rparr>
          = (execution st)\<lparr>status := final_status ?sts (execution st), progress_percentage := 100\<rparr>"
    by (simp add: forget_status_def final_status_def)
  have fail: "\<And>st. (execution (forget_status st))\<lparr>status := FAILED\<rparr> = (execution st)\<lparr>status := FAILED\<rparr>"
    by (simp add: forget_status_def)
  show ?thesis
  proof (cases "parallel_execution d")
    case True
    have "execute_parallel_workflow fuel (ignore_cancel call) sched ?sts ?remaining [] ?st0
        = map_option (\<lambda>(e, st1). (e, forget_status st1))
            (execute_parallel_workflow fuel call sched ?sts ?remaining [] ?st0)"
      using parallel_ignore_cancel[of fuel call sched ?sts ?remaining "[]" ?st0] by (simp only: st0)
    then show ?thesis using Some True
      by (cases "execute_parallel_workflow fuel call sched ?sts ?remaining [] ?st0")
         (auto simp: execute_workflow_def Let_def fin fail split: option.splits)
  next
    case False
    have "execute_sequential_workflow (ignore_cancel call) ?sts ?remaining ?st0
        = (case execute_sequential_workflow call ?sts ?remaining ?st0 of
             (e, st1) \<Rightarrow> (e, forget_status st1))"
      using sequential_ignore_cancel[of call ?sts ?remaining ?st0] by (simp only: st0)
    then show ?thesis using Some False
      by (cases "execute_sequential_workflow call ?sts ?remaining ?st0")
         (auto simp: execute_workflow_def Let_def fin fail split: option.splits)
  qed
qed


text \<open>
  C4. A sequential run of the definition \<open>chain\<close> with tools that succeed, during whose
  first tool call \<open>cancel_workflow\<close> is called for the running execution (it finds the
  execution registered, sets the status and returns True): when step \<open>a\<close> ends the status is
  \<open>CANCELLED\<close>, yet step \<open>b\<close> starts and its tool is invoked, and the run ends by
  overwriting the status with \<open>COMPLETED\<close>. A later \<open>cancel_workflow\<close> on the completed
  execution returns True and changes the terminal status once more.
\<close>

theorem cancelled_run_continues:
  "\<exists>s1 stA ex mgr tr mgr' ex'.
     execute_step cancel_at_first (new_step ''a'' ''A'' ''flaky'' [] 0)
         \<lparr>execution = (new_execution ''run-1'' ''chain'')\<lparr>status := IN_PROGRESS\<rparr>, trace = []\<rparr>
       = (None, s1, stA)
     \<and> status (execution stA) = CANCELLED
     \<and> execute_workflow 0 cancel_at_first all_at_once first_seen (chain_manager False) ''chain'' ''run-1''
          = Some (Inr ex, mgr, tr)
     \<and> tr = [Invoked ''a'' ''flaky'' 1, Invoked ''b'' ''solid'' 1]
     \<and> status ex = COMPLETED
     \<and> cancel_workflow mgr ''run-1'' = (True, mgr')
     \<and> active_workflows mgr' ''run-1'' = Some ex' \<and> status ex' = CANCELLED"
  by (simp add: run_defs chain_manager_def chain_definition_def first_seen_def all_at_once_def
      cancel_at_first_def cancel_workflow_def upto_rec1 Let_def)

section \<open>The order of steps in sequential mode\<close>

lemma set_iteration_sorted: "sorted (map slot (set_iteration slot ids))"
  by (simp add: set_iteration_def)

lemma set_iteration_definition_order:
  assumes "sorted_wrt (\<lambda>a b. slot a < slot b) ids"
  shows "set_iteration slot ids = ids"
proof -
  have inj: "distinct (map slot ids)"
    using assms by (induction ids) (auto simp: less_imp_neq)
  then have d: "distinct ids" by (rule distinct_map[THEN iffD1, THEN conjunct1])
  have s: "sorted (map slot ids)"
    using assms by (induction ids) (auto simp: less_imp_le)
  have k: "sort_key slot ids = ids" using s by (rule sort_key_id_if_sorted)
  have r: "remdups ids = ids" using d by (rule distinct_remdups_id)
  show ?thesis unfolding set_iteration_def r by (rule k)
qed

lemma first_ready_least_slot:
  assumes srt: "sorted (map slot remaining)"
    and look: "those (map (step_map sts) remaining) = Some rem_steps"
    and rd: "filter P rem_steps = step # ready_rest"
  shows "\<forall>s \<in> set rem_steps. P s \<longrightarrow> slot (step_id step) \<le> slot (step_id s)"
proof -
  from rd obtain us vs where xs: "rem_steps = us @ step # vs" and nus: "\<forall>u \<in> set us. \<not> P u"
    by (auto simp: filter_eq_Cons_iff)
  have "map slot remaining = map slot (map step_id rem_steps)"
    using lookup_step_ids[OF look] by simp
  then have "sorted (map (\<lambda>s. slot (step_id s)) (us @ step # vs))"
    using srt xs by (simp add: comp_def)
  then have "\<forall>s \<in> set vs. slot (step_id step) \<le> slot (step_id s)"
    by (auto simp: sorted_append)
  then show ?thesis using xs nus by auto
qed

text \<open>
  C9, as amended. In sequential mode the remaining ids are a set, iterated in the order
  of their hash slots, and a removal keeps that order. Whenever some remaining step is
  ready, the engine runs the ready step that comes first in that order (no ready
  remaining step has a smaller slot), and goes on with the others. Two runs with the same
  tool outcomes run the steps in the same order when the hash is the same; the order is
  the definition's when the slots ascend along the definition.
\<close>

theorem sequential_runs_first_ready_in_set_order:
  "(sorted (map slot remaining) \<and> those (map (step_map sts) remaining) = Some rem_steps
      \<and> filter (deps_completed (execution st)) rem_steps = step # ready_rest
    \<longrightarrow> step_id step \<in> set remaining \<and> step_map sts (step_id step) = Some step
        \<and> deps_completed (execution st) step
        \<and> (\<forall>s \<in> set rem_steps. deps_completed (execution st) s
               \<longrightarrow> slot (step_id step) \<le> slot (step_id s))
        \<and> execute_sequential_workflow call sts remaining st
            = (case execute_step call step st of
                 (Some e, step', st') \<Rightarrow> (Some e, st')
               | (None, step', st') \<Rightarrow>
                   if length sts = 0 then (Some (ZeroDivisionError ''division by zero''), st')
                   else execute_sequential_workflow call sts (remove1 (step_id step) remaining)
                          (update_progress (length sts) st'))
        \<and> sorted (map slot (remove1 (step_id step) remaining)))
   \<and> sorted (map slot (set_iteration slot ids))
   \<and> (sorted_wrt (\<lambda>a b. slot a < slot b) ids \<longrightarrow> set_iteration slot ids = ids)"
proof (intro conjI impI)
  assume a: "sorted (map slot remaining) \<and> those (map (step_map sts) remaining) = Some rem_steps
      \<and> filter (deps_completed (execution st)) rem_steps = step # ready_rest"
  then have srt: "sorted (map slot remaining)"
    and look: "those (map (step_map sts) remaining) = Some rem_steps"
    and rd: "filter (deps_completed (execution st)) rem_steps = step # ready_rest" by blast+
  show in_rem: "step_id step \<in> set remaining" by (rule ready_step_remaining[OF look rd])
  have "step \<in> set (filter (deps_completed (execution st)) rem_steps)" unfolding rd by simp
  then have mem: "step \<in> set rem_steps" "deps_completed (execution st) step" by simp_all
  show "deps_completed (execution st) step" by (rule mem(2))
  from those_map_Some[OF look] mem(1) obtain sid where
    sid: "sid \<in> set remaining" "step = the (step_map sts sid)" "step_map sts sid \<noteq> None" by auto
  then have sm: "step_map sts sid = Some step" by auto
  then have "step_id step = sid" by (rule step_map_step_id)
  with sm show "step_map sts (step_id step) = Some step" by simp
  show "\<forall>s \<in> set rem_steps. deps_completed (execution st) s
               \<longrightarrow> slot (step_id step) \<le> slot (step_id s)"
    by (rule first_ready_least_slot[OF srt look rd])
  have ne: "remaining \<noteq> []" using in_rem by auto
  show "execute_sequential_workflow call sts remaining st
            = (case execute_step call step st of
                 (Some e, step', st') \<Rightarrow> (Some e, st')
               | (None, step', st') \<Rightarrow>
                   if length sts = 0 then (Some (ZeroDivisionError ''division by zero''), st')
                   else execute_sequential_workflow call sts (remove1 (step_id step) remaining)
                          (update_progress (length sts) st'))"
    using ne look rd by (subst execute_sequential_workflow.simps) simp
  show "sorted (map slot (remove1 (step_id step) remaining))"
    using srt by (simp add: sorted_map_remove1)
next
  show "sorted (map slot (set_iteration slot ids))" by (rule set_iteration_sorted)
next
  assume "sorted_wrt (\<lambda>a b. slot a < slot b) ids"
  then show "set_iteration slot ids = ids" by (rule set_iteration_definition_order)
qed

theorem sequential_runs_first_ready_in_set_order_witness:
  "sorted (map reversed_slots [''b'', ''a''])
   \<and> those (map (step_map [pair_a, pair_b]) [''b'', ''a'']) = Some [pair_b, pair_a]
   \<and> filter (deps_completed (execution empty_state)) [pair_b, pair_a] = pair_b # [pair_a]
   \<and> step_id pair_b \<in> set [''b'', ''a'']
   \<and> deps_completed (execution empty_state) pair_b
   \<and> reversed_slots (step_id pair_b) \<le> reversed_slots (step_id pair_a)
   \<and> sorted (map reversed_slots (remove1 (step_id pair_b) [''b'', ''a'']))
   \<and> sorted_wrt (\<lambda>a b. reversed_slots a < reversed_slots b) [''b'', ''a'']
   \<and> set_iteration reversed_slots [''b'', ''a''] = [''b'', ''a'']"
proof -
  have h1: "sorted (map reversed_slots [''b'', ''a''])" by (simp add: reversed_slots_def)
  have h2: "those (map (step_map [pair_a, pair_b]) [''b'', ''a'']) = Some [pair_b, pair_a]"
    by (simp add: step_map_def pair_a_def pair_b_def new_step_def)
  have h3: "filter (deps_completed (execution empty_state)) [pair_b, pair_a] = pair_b # [pair_a]"
    by (simp add: deps_completed_def pair_a_def pair_b_def new_step_def)
  have h4: "sorted_wrt (\<lambda>a b. reversed_slots a < reversed_slots b) [''b'', ''a'']"
    by (simp add: reversed_slots_def)
  note t = sequential_runs_first_ready_in_set_order[of reversed_slots "[''b'', ''a'']"
      "[pair_a, pair_b]" "[pair_b, pair_a]" empty_state pair_b "[pair_a]" always_ok "[''b'', ''a'']"]
  from t h1 h2 h3 have c: "step_id pair_b \<in> set [''b'', ''a'']"
    "deps_completed (execution empty_state) pair_b"
    "\<forall>s \<in> set [pair_b, pair_a]. deps_completed (execution empty_state) s
        \<longrightarrow> reversed_slots (step_id pair_b) \<le> reversed_slots (step_id s)"
    "sorted (map reversed_slots (remove1 (step_id pair_b) [''b'', ''a'']))" by blast+
  have pa: "deps_completed (execution empty_state) pair_a"
    by (simp add: deps_completed_def pair_a_def new_step_def)
  from c(3) pa have le: "reversed_slots (step_id pair_b) \<le> reversed_slots (step_id pair_a)" by simp
  from t h4 have e: "set_iteration reversed_slots [''b'', ''a''] = [''b'', ''a'']" by blast
  show ?thesis using h1 h2 h3 h4 c(1,2,4) le e by blast
qed

text \<open>
  C9 as stated fails: \<open>a\<close> and \<open>b\<close> are both ready at the start and \<open>a\<close> comes first in the
  definition, but under a hash that puts \<open>b\<close> first the engine runs \<open>b\<close> before \<open>a\<close>; two
  runs of the same definition with the same tool outcomes differ in their order.
\<close>

theorem hash_order_decides_counterexample:
  "\<exists>ex mgr tr ex' mgr' tr'.
     map step_id (steps pair_definition) = [''a'', ''b'']
     \<and> execute_workflow 0 always_ok all_at_once reversed_slots pair_manager ''pair'' ''run-1''
          = Some (Inr ex, mgr, tr)
     \<and> tr = [Invoked ''b'' ''second'' 1, Invoked ''a'' ''first'' 1]
     \<and> completed_steps ex = [''b'', ''a'']
     \<and> execute_workflow 0 always_ok all_at_once definition_slots pair_manager ''pair'' ''run-1''
          = Some (Inr ex', mgr', tr')
     \<and> tr' = [Invoked ''a'' ''first'' 1, Invoked ''b'' ''second'' 1]"
  by (simp add: run_defs pair_manager_def pair_definition_def pair_a_def pair_b_def
      reversed_slots_def definition_slots_def always_ok_def upto_rec1 Let_def)

section \<open>Failed responses and the dependents of a failed step\<close>

text \<open>
  C8. A step with \<open>max_retries = 2\<close> whose tool fails on every call the way the client
  reports an ordinary failure, by returning a response with \<open>success = False\<close> (here the
  one \<open>call_tool\<close> builds for JSON-RPC error -32601): \<open>_execute_step\<close> never reads
  \<open>result.success\<close>, so it invokes the tool once, does not retry, and marks the step
  completed instead of failed.
\<close>

theorem failed_response_completes_step:
  "\<exists>c step' st'.
     call_tool method_not_found fresh_client ''send_email'' None = (Inr not_found_response, c)
     \<and> success not_found_response = False \<and> resp_status not_found_response = REQUEST_FAILED
     \<and> max_retries email_step = 2
     \<and> execute_step tool_missing email_step empty_state = (None, step', st')
     \<and> trace st' = [Invoked ''email_report'' ''send_email'' 1]
     \<and> invocations (trace st') ''email_report'' = 1
     \<and> step_status step' = Step_COMPLETED
     \<and> completed_steps (execution st') = [''email_report'']
     \<and> failed_steps (execution st') = []"
  by (simp add: call_tool_def fresh_client_def method_not_found_def upto_rec1 attempt_once_def
      handle_response_def bump_failed_def not_found_response_def failure_response_def
      email_step_def new_step_def execute_step_def await_tool_def tool_missing_def
      empty_state_def new_execution_def record_completed_def invocations_def Let_def)

text \<open>
  C3. Step \<open>a\<close> of \<open>chain\<close> fails after its retries and \<open>b\<close> depends on it. In a
  sequential run the exception of \<open>a\<close> ends the loop before the branch for failed
  dependencies can run: \<open>b\<close> is not invoked, but it is not in \<open>failed_steps\<close> and has no
  entry in \<open>errors\<close>. That branch itself, entered with \<open>a\<close> failed and \<open>b\<close> remaining, appends
  \<open>b\<close> to \<open>failed_steps\<close> without invoking it and records no error message for it.
\<close>

theorem dependent_of_failed_step_not_marked:
  "\<exists>e mgr tr ex st'.
     execute_workflow fuel flaky_down sched first_seen (chain_manager False) ''chain'' ''run-1''
       = Some (Inl e, mgr, tr)
     \<and> active_workflows mgr ''run-1'' = Some ex
     \<and> failed_steps ex = [''a''] \<and> ''b'' \<notin> set (failed_steps ex)
     \<and> errors ex ''b'' = None \<and> invocations tr ''b'' = 0
     \<and> execute_sequential_workflow flaky_down (steps (chain_definition False)) [''b''] a_failed_state
          = (None, st')
     \<and> failed_steps (execution st') = [''a'', ''b'']
     \<and> errors (execution st') ''b'' = None
     \<and> trace st' = []"
  by (simp add: run_defs chain_manager_def chain_definition_def first_seen_def
      flaky_down_def a_failed_state_def invocations_def upto_rec1 Let_def)

end
